theory Spec2Isabelle
  imports Complex_Main
begin

section \<open>JavaScript values used by the parser\<close>

text \<open>
  The parser is JavaScript. Its numbers are IEEE 754 binary64 values, modelled as the
  rational they denote together with the three special values and the negative zero.
  Strings are lists of code units; the model covers the code units below 256.
\<close>

datatype number = NaN | PosInf | NegInf | NegZero | Finite rat

text \<open>
  The primitive values (symbols and big integers apart), and the values \<open>parse\<close> is
  applied to: a primitive or an array. Objects other than arrays are outside the model.
\<close>

datatype prim = Undefined | Null | Bool bool | Num number | Str string

datatype jsval = Prim prim | Arr "jsval list"

text \<open>
  \<open>TypeError\<close> is the exception of the language. \<open>Unmodelled\<close> is no behaviour of the
  program: it marks the one place where the model declines to compute, the decimal
  rendering of a number that is not an integer below \<open>10 ^ 21\<close> in magnitude.
\<close>

datatype error = TypeError | Unmodelled

subsection \<open>Rounding a rational to binary64\<close>

function bitlength :: "int \<Rightarrow> nat" where
  "bitlength n = (if n \<le> 0 then 0 else Suc (bitlength (n div 2)))"
  by pat_completeness auto
termination
  by (relation "measure nat") auto

declare bitlength.simps [simp del]

definition floor_log2 :: "rat \<Rightarrow> int" where
  \<comment> \<open>for \<open>0 < x\<close>: the \<open>e\<close> with \<open>2 powi e \<le> x < 2 powi (e + 1)\<close>\<close>
  "floor_log2 x =
     (let (a, b) = quotient_of x;
          d = int (bitlength a) - int (bitlength b)
      in if 2 powi d \<le> x then d else d - 1)"

definition round_half_even :: "rat \<Rightarrow> int" where
  "round_half_even x =
     (let f = \<lfloor>x\<rfloor>; r = x - of_int f
      in if r < 1 / 2 then f
         else if 1 / 2 < r then f + 1
         else if even f then f else f + 1)"

definition double_of_pos :: "rat \<Rightarrow> number" where
  \<comment> \<open>round to nearest, ties to even, 53 bits of precision, exponents from -1022
      (subnormals below); infinity when the rounded value reaches \<open>2 ^ 1024\<close>, that is
      when \<open>1023 < e\<close> or the significand of exponent 1023 rounds up to \<open>2 ^ 53\<close>\<close>
  "double_of_pos x =
     (let e = floor_log2 x;
          u = max e (- 1022) - 52;
          m = round_half_even (x / (2 powi u));
          v = of_int m * (2 powi u)
      in if 1023 < e \<or> (e = 1023 \<and> m = 2 ^ 53) then PosInf else Finite v)"

fun negate :: "number \<Rightarrow> number" where
  "negate NaN = NaN"
| "negate PosInf = NegInf"
| "negate NegInf = PosInf"
| "negate NegZero = Finite 0"
| "negate (Finite x) = (if x = 0 then NegZero else Finite (- x))"

definition number_of_rat :: "rat \<Rightarrow> number" where
  \<comment> \<open>the Number value for a mathematical value. For a literal of more than 20
      significant digits the language lets an implementation round an approximation; the
      model rounds the exact value.\<close>
  "number_of_rat x =
     (if x = 0 then Finite 0
      else if 0 < x then double_of_pos x
      else negate (double_of_pos (- x)))"

subsection \<open>Characters and digits\<close>

definition char_code :: "char \<Rightarrow> nat" where
  "char_code c = of_char c"

definition is_ws :: "char \<Rightarrow> bool" where
  \<comment> \<open>white space and line terminators among the code units below 256\<close>
  "is_ws c = (char_code c \<in> {9, 10, 11, 12, 13, 32, 160})"

definition is_word :: "char \<Rightarrow> bool" where
  \<comment> \<open>the class \<open>\w\<close> of a regular expression: \<open>[A-Za-z0-9_]\<close>\<close>
  "is_word c =
     (let n = char_code c
      in (48 \<le> n \<and> n \<le> 57) \<or> (65 \<le> n \<and> n \<le> 90) \<or> n = 95 \<or> (97 \<le> n \<and> n \<le> 122))"

definition digit_value :: "char \<Rightarrow> nat option" where
  "digit_value c =
     (let n = char_code c
      in if 48 \<le> n \<and> n \<le> 57 then Some (n - 48)
         else if 97 \<le> n \<and> n \<le> 122 then Some (n - 87)
         else if 65 \<le> n \<and> n \<le> 90 then Some (n - 55)
         else None)"

definition is_digit_in :: "nat \<Rightarrow> char \<Rightarrow> bool" where
  "is_digit_in r c = (case digit_value c of Some d \<Rightarrow> d < r | None \<Rightarrow> False)"

definition dval :: "char \<Rightarrow> int" where
  "dval c = (case digit_value c of Some d \<Rightarrow> int d | None \<Rightarrow> 0)"

definition digits_value :: "nat \<Rightarrow> string \<Rightarrow> int" where
  \<comment> \<open>the mathematical value of a digit string in radix \<open>r\<close>\<close>
  "digits_value r ds = foldl (\<lambda>acc c. acc * int r + dval c) 0 ds"

definition is_digits :: "nat \<Rightarrow> string \<Rightarrow> bool" where
  "is_digits r ds = (ds \<noteq> [] \<and> list_all (is_digit_in r) ds)"

subsection \<open>StringToNumber, ToNumber and parseInt\<close>

definition trim :: "string \<Rightarrow> string" where
  "trim s = rev (dropWhile is_ws (rev (dropWhile is_ws s)))"

definition is_exp_mark :: "char \<Rightarrow> bool" where
  "is_exp_mark c = (c = CHR ''e'' \<or> c = CHR ''E'')"

definition signed_digits :: "string \<Rightarrow> int option" where
  "signed_digits s =
     (case s of
        [] \<Rightarrow> None
      | c # ds \<Rightarrow>
          if c = CHR ''+'' then (if is_digits 10 ds then Some (digits_value 10 ds) else None)
          else if c = CHR ''-'' then (if is_digits 10 ds then Some (- digits_value 10 ds) else None)
          else if is_digits 10 s then Some (digits_value 10 s) else None)"

definition exponent_part :: "string \<Rightarrow> int option" where
  \<comment> \<open>the text from the exponent mark on; empty when the literal has no exponent\<close>
  "exponent_part x = (case x of [] \<Rightarrow> Some 0 | _ # s \<Rightarrow> signed_digits s)"

definition decimal_literal :: "string \<Rightarrow> rat option" where
  \<comment> \<open>\<open>digits . digits? exp?\<close>, \<open>. digits exp?\<close> or \<open>digits exp?\<close>\<close>
  "decimal_literal t =
     (let m = takeWhile (\<lambda>c. \<not> is_exp_mark c) t;
          x = dropWhile (\<lambda>c. \<not> is_exp_mark c) t;
          ip = takeWhile (\<lambda>c. c \<noteq> CHR ''.'') m;
          fr = dropWhile (\<lambda>c. c \<noteq> CHR ''.'') m
      in case exponent_part x of
           None \<Rightarrow> None
         | Some ex \<Rightarrow>
             if fr = [] then
               (if is_digits 10 ip then Some (of_int (digits_value 10 ip) * (10 powi ex)) else None)
             else
               (let fd = tl fr
                in if (ip = [] \<and> fd = []) \<or> \<not> list_all (is_digit_in 10) (ip @ fd) then None
                   else Some (of_int (digits_value 10 (ip @ fd)) / 10 ^ length fd * (10 powi ex))))"

definition str_unsigned :: "string \<Rightarrow> number" where
  "str_unsigned t =
     (if t = ''Infinity'' then PosInf
      else case decimal_literal t of None \<Rightarrow> NaN | Some q \<Rightarrow> number_of_rat q)"

definition str_decimal :: "string \<Rightarrow> number" where
  "str_decimal t =
     (case t of
        [] \<Rightarrow> NaN
      | c # u \<Rightarrow>
          if c = CHR ''+'' then str_unsigned u
          else if c = CHR ''-'' then negate (str_unsigned u)
          else str_unsigned t)"

definition nondecimal_literal :: "string \<Rightarrow> int option" where
  \<comment> \<open>\<open>0x\<close>, \<open>0o\<close> and \<open>0b\<close> literals; they take no sign\<close>
  "nondecimal_literal t =
     (case t of
        c0 # c1 # ds \<Rightarrow>
          if c0 \<noteq> CHR ''0'' then None
          else if c1 = CHR ''x'' \<or> c1 = CHR ''X'' then
            (if is_digits 16 ds then Some (digits_value 16 ds) else None)
          else if c1 = CHR ''o'' \<or> c1 = CHR ''O'' then
            (if is_digits 8 ds then Some (digits_value 8 ds) else None)
          else if c1 = CHR ''b'' \<or> c1 = CHR ''B'' then
            (if is_digits 2 ds then Some (digits_value 2 ds) else None)
          else None
      | _ \<Rightarrow> None)"

definition StringToNumber :: "string \<Rightarrow> number" where
  "StringToNumber s =
     (let t = trim s
      in if t = [] then Finite 0
         else case nondecimal_literal t of
                Some n \<Rightarrow> number_of_rat (of_int n)
              | None \<Rightarrow> str_decimal t)"

fun ToNumber :: "prim \<Rightarrow> number" where
  "ToNumber Undefined = NaN"
| "ToNumber Null = Finite 0"
| "ToNumber (Bool b) = (if b then Finite 1 else Finite 0)"
| "ToNumber (Num n) = n"
| "ToNumber (Str s) = StringToNumber s"

definition isNaN :: "prim \<Rightarrow> bool" where
  "isNaN v = (ToNumber v = NaN)"

definition Number :: "prim \<Rightarrow> number" where
  "Number v = ToNumber v"

definition strip_hex_prefix :: "string \<Rightarrow> string" where
  "strip_hex_prefix s =
     (case s of
        c0 # c1 # r \<Rightarrow> if c0 = CHR ''0'' \<and> (c1 = CHR ''x'' \<or> c1 = CHR ''X'') then r else s
      | _ \<Rightarrow> s)"

definition parseInt :: "string \<Rightarrow> nat \<Rightarrow> number" where
  \<comment> \<open>\<open>parseInt(s, r)\<close> for a radix \<open>r\<close> from 2 to 36: leading white space, a sign, for
      radix 16 a \<open>0x\<close> prefix, then the longest run of digits of that radix\<close>
  "parseInt s r =
     (let t = dropWhile is_ws s;
          neg = (t \<noteq> [] \<and> hd t = CHR ''-'');
          t1 = (if t \<noteq> [] \<and> (hd t = CHR ''+'' \<or> hd t = CHR ''-'') then tl t else t);
          t2 = (if r = 16 then strip_hex_prefix t1 else t1);
          z = takeWhile (is_digit_in r) t2
      in if z = [] then NaN
         else if neg then negate (number_of_rat (of_int (digits_value r z)))
         else number_of_rat (of_int (digits_value r z)))"

subsection \<open>Number to text\<close>

definition digit_char :: "nat \<Rightarrow> char" where
  "digit_char d = char_of (48 + d)"

fun dec_digits :: "nat \<Rightarrow> string" where
  "dec_digits n = (if n < 10 then [digit_char n] else dec_digits (n div 10) @ [digit_char (n mod 10)])"

declare dec_digits.simps [simp del]

fun num_to_string :: "number \<Rightarrow> error + string" where
  \<comment> \<open>the text a template literal puts in for a number\<close>
  "num_to_string NaN = Inr ''NaN''"
| "num_to_string PosInf = Inr ''Infinity''"
| "num_to_string NegInf = Inr ''-Infinity''"
| "num_to_string NegZero = Inr ''0''"
| "num_to_string (Finite x) =
     (if x = of_int \<lfloor>x\<rfloor> \<and> \<bar>x\<bar> < 10 ^ 21 then
        Inr ((if x < 0 then ''-'' else []) @ dec_digits (nat \<bar>\<lfloor>x\<rfloor>\<bar>))
      else Inl Unmodelled)"

subsection \<open>String methods\<close>

definition indexOf :: "string \<Rightarrow> char \<Rightarrow> int" where
  \<comment> \<open>\<open>s.indexOf(c)\<close> for a one-character needle: the first position, or \<open>-1\<close>\<close>
  "indexOf s c = (if c \<in> set s then int (length (takeWhile (\<lambda>x. x \<noteq> c) s)) else - 1)"

definition substr :: "string \<Rightarrow> nat \<Rightarrow> nat \<Rightarrow> string" where
  \<comment> \<open>\<open>s.substr(start, len)\<close> for a start that is not negative\<close>
  "substr s start len = take len (drop start s)"

definition substr_from :: "string \<Rightarrow> nat \<Rightarrow> string" where
  \<comment> \<open>\<open>s.substr(start)\<close>\<close>
  "substr_from s start = drop start s"

definition substring :: "string \<Rightarrow> nat \<Rightarrow> nat \<Rightarrow> string" where
  \<comment> \<open>\<open>s.substring(a, b)\<close>: both ends clamped to the length, swapped when out of order\<close>
  "substring s a b =
     (let a' = min a (length s); b' = min b (length s)
      in take (max a' b' - min a' b') (drop (min a' b') s))"

definition slice_last :: "string \<Rightarrow> string" where
  \<comment> \<open>\<open>s.slice(-1)\<close>: the last character, or the empty string\<close>
  "slice_last s = (if s = [] then [] else [last s])"

fun split :: "string \<Rightarrow> char \<Rightarrow> string list" where
  \<comment> \<open>\<open>s.split(c)\<close>; the empty string gives one empty token\<close>
  "split [] c = [[]]"
| "split (x # xs) c =
     (if x = c then [] # split xs c
      else (case split xs c of t # ts \<Rightarrow> (x # t) # ts | [] \<Rightarrow> [[x]]))"

definition element :: "string list \<Rightarrow> nat \<Rightarrow> prim" where
  \<comment> \<open>reading an array of strings by index or by destructuring: \<open>undefined\<close> past the end\<close>
  "element ts i = (if i < length ts then Str (ts ! i) else Undefined)"

subsection \<open>Regular expressions\<close>

text \<open>
  The two patterns of the program use character classes, sequence, alternation, \<open>?\<close>,
  \<open>{n}\<close>, \<open>^\<close>, \<open>$\<close> and \<open>\b\<close>. A matcher state is the character before the
  position and the text from the position on; \<open>rx_match\<close> lists every state a match of
  the pattern can end in. \<open>test\<close> asks whether a match exists from some position, which
  is what a backtracking matcher decides for such patterns.
\<close>

datatype rx =
    Cls "(char \<times> char) list"
  | Seq rx rx
  | Alt rx rx
  | Opt rx
  | Rep nat rx
  | WordB
  | Bol
  | Eol

type_synonym mstate = "char option \<times> string"

definition in_class :: "(char \<times> char) list \<Rightarrow> char \<Rightarrow> bool" where
  "in_class rs c = list_ex (\<lambda>(lo, hi). char_code lo \<le> char_code c \<and> char_code c \<le> char_code hi) rs"

definition at_boundary :: "mstate \<Rightarrow> bool" where
  "at_boundary st =
     ((case fst st of None \<Rightarrow> False | Some c \<Rightarrow> is_word c)
      \<noteq> (case snd st of [] \<Rightarrow> False | c # _ \<Rightarrow> is_word c))"

primrec rx_match :: "rx \<Rightarrow> mstate \<Rightarrow> mstate list" where
  "rx_match (Cls rs) st =
     (case snd st of [] \<Rightarrow> [] | c # cs \<Rightarrow> if in_class rs c then [(Some c, cs)] else [])"
| "rx_match (Seq a b) st = concat (map (rx_match b) (rx_match a st))"
| "rx_match (Alt a b) st = rx_match a st @ rx_match b st"
| "rx_match (Opt a) st = rx_match a st @ [st]"
| "rx_match (Rep n a) st = ((\<lambda>sts. concat (map (rx_match a) sts)) ^^ n) [st]"
| "rx_match WordB st = (if at_boundary st then [st] else [])"
| "rx_match Bol st = (if fst st = None then [st] else [])"
| "rx_match Eol st = (if snd st = [] then [st] else [])"

fun test_from :: "rx \<Rightarrow> char option \<Rightarrow> string \<Rightarrow> bool" where
  "test_from r p [] = (rx_match r (p, []) \<noteq> [])"
| "test_from r p (c # cs) = (rx_match r (p, c # cs) \<noteq> [] \<or> test_from r (Some c) cs)"

definition test :: "rx \<Rightarrow> string \<Rightarrow> bool" where
  \<comment> \<open>\<open>r.test(s)\<close>\<close>
  "test r s = test_from r None s"

definition cls_char :: "char \<Rightarrow> rx" where
  "cls_char c = Cls [(c, c)]"

definition cls_range :: "char \<Rightarrow> char \<Rightarrow> rx" where
  "cls_range lo hi = Cls [(lo, hi)]"

definition hex_rx :: rx where
  \<comment> \<open>\<open>/^[0-9a-f]{24}$/\<close>\<close>
  "hex_rx = Seq Bol (Seq (Rep 24 (Cls [(CHR ''0'', CHR ''9''), (CHR ''a'', CHR ''f'')])) Eol)"

definition octet_25x :: rx where
  \<comment> \<open>\<open>25[0-5]\<close>\<close>
  "octet_25x = Seq (cls_char CHR ''2'') (Seq (cls_char CHR ''5'') (cls_range CHR ''0'' CHR ''5''))"

definition octet_2xx :: rx where
  \<comment> \<open>\<open>2[0-4][0-9]\<close>\<close>
  "octet_2xx = Seq (cls_char CHR ''2'') (Seq (cls_range CHR ''0'' CHR ''4'') (cls_range CHR ''0'' CHR ''9''))"

definition octet_xxx :: rx where
  \<comment> \<open>\<open>[01]?[0-9][0-9]?\<close>\<close>
  "octet_xxx =
     Seq (Opt (cls_range CHR ''0'' CHR ''1'')) (Seq (cls_range CHR ''0'' CHR ''9'') (Opt (cls_range CHR ''0'' CHR ''9'')))"

definition octet_alt :: rx where
  \<comment> \<open>\<open>(25[0-5]|2[0-4][0-9]|[01]?[0-9][0-9]?)\<close>\<close>
  "octet_alt = Alt octet_25x (Alt octet_2xx octet_xxx)"

definition ip_rx :: rx where
  \<comment> \<open>\<open>/(\b25[0-5]|\b2[0-4][0-9]|\b[01]?[0-9][0-9]?)(\.(25[0-5]|2[0-4][0-9]|[01]?[0-9][0-9]?)){3}/\<close>\<close>
  "ip_rx =
     Seq (Alt (Seq WordB octet_25x) (Alt (Seq WordB octet_2xx) (Seq WordB octet_xxx)))
         (Rep 3 (Seq (cls_char CHR ''.'') octet_alt))"

section \<open>The output record and the normalizer\<close>

text \<open>
  The record \<open>formatOutput\<close> returns; \<open>None\<close> is the source's \<open>null\<close>. The field
  \<open>id\<close> of the source is \<open>rec_id\<close> here.
\<close>

record usage_record =
  rec_id :: "number option"
  dmcc :: "string option"
  mnc :: "number option"
  bytes_used :: "number option"
  cellid :: "number option"
  ip :: "string option"

definition formatOutput :: "prim \<Rightarrow> prim \<Rightarrow> prim \<Rightarrow> prim \<Rightarrow> prim \<Rightarrow> prim \<Rightarrow> usage_record" where
  \<comment> \<open>\<open>#formatOutput(id, mnc, bytes_used, dmcc, cellid, ip)\<close>, the same text in both
      files. \<open>ip == null\<close> holds of \<open>null\<close> and \<open>undefined\<close>; the pattern needs three
      dots, which the text of a boolean or of a number never has.\<close>
  "formatOutput id' mnc' bytes_used' dmcc' cellid' ip' =
     (let isValidIp =
            (case ip' of
               Undefined \<Rightarrow> False
             | Null \<Rightarrow> False
             | Str s \<Rightarrow> test ip_rx s
             | _ \<Rightarrow> False)
      in \<lparr> rec_id = (if isNaN id' then None else Some (Number id')),
           dmcc = (case dmcc' of Str s \<Rightarrow> Some s | _ \<Rightarrow> None),
           mnc = (if isNaN mnc' then None else Some (Number mnc')),
           bytes_used = (if isNaN bytes_used' then None else Some (Number bytes_used')),
           cellid = (if isNaN cellid' then None else Some (Number cellid')),
           ip = (if isValidIp then (case ip' of Str s \<Rightarrow> Some s | _ \<Rightarrow> None) else None) \<rparr>)"

section \<open>src/usage\_parser.js\<close>

record formatter =
  name :: string
  applyIf :: "string \<Rightarrow> bool"
  isValid :: "string \<Rightarrow> bool"
  process :: "string \<Rightarrow> string \<Rightarrow> error + usage_record"

definition octet_text :: "string \<Rightarrow> nat \<Rightarrow> error + string" where
  \<comment> \<open>the template-literal part for \<open>parseInt(data.substring(a, a + 2), 16)\<close>\<close>
  "octet_text data a = num_to_string (parseInt (substring data a (a + 2)) 16)"

definition hex_ip :: "string \<Rightarrow> error + string" where
  \<comment> \<open>the four template literals joined with dots\<close>
  "hex_ip data =
     (case octet_text data 16 of Inl e \<Rightarrow> Inl e | Inr a \<Rightarrow>
      case octet_text data 18 of Inl e \<Rightarrow> Inl e | Inr b \<Rightarrow>
      case octet_text data 20 of Inl e \<Rightarrow> Inl e | Inr c \<Rightarrow>
      case octet_text data 22 of Inl e \<Rightarrow> Inl e | Inr d \<Rightarrow>
        Inr (a @ ''.'' @ b @ ''.'' @ c @ ''.'' @ d))"

definition hex_process :: "string \<Rightarrow> string \<Rightarrow> error + usage_record" where
  "hex_process id' data =
     (let mnc' = parseInt (substring data 0 4) 16;
          bytes_used' = parseInt (substring data 4 8) 16;
          cellid' = parseInt (substring data 8 16) 16
      in case hex_ip data of
           Inl e \<Rightarrow> Inl e
         | Inr ip' \<Rightarrow>
             Inr (formatOutput (Str id') (Num mnc') (Num bytes_used') Undefined (Num cellid') (Str ip')))"

definition HEX :: formatter where
  "HEX = \<lparr> name = ''HEX'',
           applyIf = (\<lambda>id'. slice_last id' = ''6''),
           isValid = (\<lambda>data. test hex_rx data),
           process = hex_process \<rparr>"

definition EXTENDED :: formatter where
  "EXTENDED = \<lparr> name = ''EXTENDED'',
                applyIf = (\<lambda>id'. slice_last id' = ''4''),
                isValid = (\<lambda>data. length (split data CHR '','') = 4),
                process = (\<lambda>id' data.
                  let ts = split data CHR '',''
                  in Inr (formatOutput (Str id') (element ts 1) (element ts 2) (element ts 0)
                            (element ts 3) Undefined)) \<rparr>"

definition DEFAULT :: formatter where
  "DEFAULT = \<lparr> name = ''DEFAULT'',
               applyIf = (\<lambda>id'. True),
               isValid = (\<lambda>data. \<not> isNaN (Str data)),
               process = (\<lambda>id' data.
                 Inr (formatOutput (Str id') Undefined (Str data) Undefined Undefined Undefined)) \<rparr>"

definition parsingMethods :: "formatter list" where
  "parsingMethods = [HEX, EXTENDED, DEFAULT]"

fun getFormatter_loop :: "formatter list \<Rightarrow> string \<Rightarrow> formatter option" where
  "getFormatter_loop [] id' = None"
| "getFormatter_loop (f # fs) id' = (if applyIf f id' then Some f else getFormatter_loop fs id')"

definition getFormatter :: "string \<Rightarrow> formatter option" where
  "getFormatter id' = getFormatter_loop parsingMethods id'"

fun typeof :: "jsval \<Rightarrow> string" where
  "typeof (Prim Undefined) = ''undefined''"
| "typeof (Prim Null) = ''object''"
| "typeof (Prim (Bool b)) = ''boolean''"
| "typeof (Prim (Num n)) = ''number''"
| "typeof (Prim (Str s)) = ''string''"
| "typeof (Arr xs) = ''object''"

fun number_eq :: "number \<Rightarrow> number \<Rightarrow> bool" where
  \<comment> \<open>equality of numbers: \<open>NaN\<close> equals nothing, the two zeros are equal\<close>
  "number_eq NaN y = False"
| "number_eq x NaN = False"
| "number_eq NegZero y = (y = NegZero \<or> y = Finite 0)"
| "number_eq x NegZero = (x = Finite 0)"
| "number_eq x y = (x = y)"

definition not_string_guard :: "jsval \<Rightarrow> bool" where
  \<comment> \<open>\<open>(!typeof input) == `string`\<close>: the negation binds to \<open>typeof input\<close>, a text that is
      falsy only when empty; the boolean is then compared with the text \<open>string\<close>, both as
      numbers\<close>
  "not_string_guard input =
     number_eq (ToNumber (Bool (typeof input = []))) (ToNumber (Str ''string''))"

definition parseSingle_text :: "string \<Rightarrow> error + usage_record option" where
  \<comment> \<open>\<open>#parseSingle\<close> from \<open>indexOf\<close> on, for an input that is a string. The line sent
      to \<open>console.log\<close> is no part of the value returned and is left out.\<close>
  "parseSingle_text input =
     (let firstCommaIx = indexOf input CHR '',''
      in if firstCommaIx < 0 then Inr None
         else
           (let id' = substr input 0 (nat firstCommaIx);
                data = substr_from input (nat firstCommaIx + 1)
            in case getFormatter id' of
                 None \<Rightarrow> Inl TypeError
               | Some formatter \<Rightarrow>
                   if \<not> isValid formatter data then Inr None
                   else (case process formatter id' data of
                           Inl e \<Rightarrow> Inl e
                         | Inr r \<Rightarrow> Inr (Some r))))"

definition parseSingle :: "jsval \<Rightarrow> error + usage_record option" where
  \<comment> \<open>\<open>#parseSingle\<close>. Reading \<open>indexOf\<close> from \<open>undefined\<close> or \<open>null\<close> throws; a boolean
      or a number has no \<open>indexOf\<close> to call; an array has one, which looks for an element
      equal to the comma, and has no \<open>substr\<close>.\<close>
  "parseSingle input =
     (if not_string_guard input then Inr None
      else case input of
             Prim (Str s) \<Rightarrow> parseSingle_text s
           | Prim _ \<Rightarrow> Inl TypeError
           | Arr xs \<Rightarrow> if Prim (Str '','') \<in> set xs then Inl TypeError else Inr None)"

fun forEach_push :: "(jsval \<Rightarrow> error + 'a) \<Rightarrow> jsval list \<Rightarrow> 'a list \<Rightarrow> error + 'a list" where
  \<comment> \<open>\<open>input.forEach((string) => { output.push(f(string)); })\<close>; an exception ends it\<close>
  "forEach_push f [] output = Inr output"
| "forEach_push f (x # xs) output =
     (case f x of Inl e \<Rightarrow> Inl e | Inr y \<Rightarrow> forEach_push f xs (output @ [y]))"

definition parse :: "jsval \<Rightarrow> error + usage_record option list" where
  "parse input =
     (case input of
        Arr xs \<Rightarrow> forEach_push parseSingle xs []
      | _ \<Rightarrow> (case parseSingle input of Inl e \<Rightarrow> Inl e | Inr r \<Rightarrow> Inr [r]))"

section \<open>src/unnamed/part\_000\<close>

text \<open>
  The second file holds the same class with the handlers written as methods; its
  definitions carry the suffix \<open>_p0\<close>. \<open>#formatOutput\<close> is the one above.
\<close>

record response =
  resp_isValid :: bool
  resp_format :: string
  resp_tokens :: "string list option"

definition validateInput_p0 :: "jsval \<Rightarrow> error + response" where
  \<comment> \<open>\<open>#validateInput\<close>: only a string has a \<open>split\<close> to call\<close>
  "validateInput_p0 input =
     (let response = \<lparr> resp_isValid = False, resp_format = [], resp_tokens = None \<rparr>
      in if not_string_guard input then Inr response
         else case input of
                Prim (Str s) \<Rightarrow>
                  (let response = response \<lparr> resp_tokens := Some (split s CHR '','') \<rparr>
                   in if length (split s CHR '','') < 2 then Inr response
                      else Inr (response \<lparr> resp_format := slice_last (hd (split s CHR '','')),
                                           resp_isValid := True \<rparr>))
              | _ \<Rightarrow> Inl TypeError)"

definition parseBasic_p0 :: "string list \<Rightarrow> error + usage_record option" where
  "parseBasic_p0 tokens =
     Inr (Some (formatOutput (element tokens 0) Undefined (element tokens 1)
                  Undefined Undefined Undefined))"

definition parseHex_p0 :: "string list \<Rightarrow> error + usage_record option" where
  \<comment> \<open>\<open>#parseHex\<close>; a missing second token would be tested as the text \<open>undefined\<close>,
      which the pattern rejects\<close>
  "parseHex_p0 tokens =
     (let id' = element tokens 0
      in case element tokens 1 of
           Str nibbles \<Rightarrow>
             if \<not> test hex_rx nibbles then Inr None
             else
               (let mnc' = parseInt (substring nibbles 0 4) 16;
                    bytes_used' = parseInt (substring nibbles 4 8) 16;
                    cellid' = parseInt (substring nibbles 8 16) 16
                in case hex_ip nibbles of
                     Inl e \<Rightarrow> Inl e
                   | Inr ip' \<Rightarrow>
                       Inr (Some (formatOutput id' (Num mnc') (Num bytes_used') Undefined
                                    (Num cellid') (Str ip'))))
         | _ \<Rightarrow> Inr None)"

definition parseExtended_p0 :: "string list \<Rightarrow> error + usage_record option" where
  "parseExtended_p0 tokens =
     Inr (Some (formatOutput (element tokens 0) (element tokens 2) (element tokens 3)
                  (element tokens 1) (element tokens 4) Undefined))"

definition PROCESS_HEX :: string where
  "PROCESS_HEX = ''6''"

definition PROCESS_EXTENDED :: string where
  "PROCESS_EXTENDED = ''4''"

definition parseSingle_p0 :: "jsval \<Rightarrow> error + usage_record option" where
  "parseSingle_p0 input =
     (case validateInput_p0 input of
        Inl e \<Rightarrow> Inl e
      | Inr formattedInput \<Rightarrow>
          if \<not> resp_isValid formattedInput then Inr None
          else case resp_tokens formattedInput of
                 None \<Rightarrow> Inl TypeError
               | Some tokens \<Rightarrow>
                   if resp_format formattedInput = PROCESS_EXTENDED then parseExtended_p0 tokens
                   else if resp_format formattedInput = PROCESS_HEX then parseHex_p0 tokens
                   else parseBasic_p0 tokens)"

definition parse_p0 :: "jsval \<Rightarrow> error + usage_record option list" where
  "parse_p0 input =
     (case input of
        Arr xs \<Rightarrow> forEach_push parseSingle_p0 xs []
      | _ \<Rightarrow> (case parseSingle_p0 input of Inl e \<Rightarrow> Inl e | Inr r \<Rightarrow> Inr [r]))"

section \<open>Feeding a record back to the normalizer\<close>







section \<open>Well-formed input, as the specification words it\<close>

definition is_hex_lower :: "char \<Rightarrow> bool" where
  \<comment> \<open>a character of \<open>[0-9a-f]\<close>\<close>
  "is_hex_lower c = in_class [(CHR ''0'', CHR ''9''), (CHR ''a'', CHR ''f'')] c"

definition hex_payload :: "string \<Rightarrow> bool" where
  \<comment> \<open>exactly 24 characters drawn from \<open>[0-9a-f]\<close>\<close>
  "hex_payload data = (length data = 24 \<and> list_all is_hex_lower data)"

definition hex_field :: "string \<Rightarrow> nat \<Rightarrow> nat \<Rightarrow> int" where
  \<comment> \<open>the base-16 value of the characters from offset \<open>a\<close> up to offset \<open>b\<close>\<close>
  "hex_field data a b = digits_value 16 (take (b - a) (drop a data))"

definition dotted_quad :: "nat \<Rightarrow> nat \<Rightarrow> nat \<Rightarrow> nat \<Rightarrow> string" where
  \<comment> \<open>four base-10 octet values joined with dots\<close>
  "dotted_quad a b c d =
     dec_digits a @ ''.'' @ dec_digits b @ ''.'' @ dec_digits c @ ''.'' @ dec_digits d"

definition id_token :: "string \<Rightarrow> string" where
  \<comment> \<open>the text of a line before its first separator\<close>
  "id_token line = takeWhile (\<lambda>c. c \<noteq> CHR '','') line"

definition payload :: "string \<Rightarrow> string" where
  \<comment> \<open>the text of a line after its first separator\<close>
  "payload line = drop (Suc (length (id_token line))) line"

definition ends_in :: "char \<Rightarrow> string \<Rightarrow> bool" where
  "ends_in c s = (s \<noteq> [] \<and> last s = c)"

definition well_formed_default :: "string \<Rightarrow> bool" where
  \<comment> \<open>an ID ending in neither 6 nor 4 and a single numeric payload token\<close>
  "well_formed_default line =
     (CHR '','' \<in> set line
      \<and> \<not> ends_in CHR ''6'' (id_token line) \<and> \<not> ends_in CHR ''4'' (id_token line)
      \<and> CHR '','' \<notin> set (payload line) \<and> \<not> isNaN (Str (payload line)))"

definition well_formed_extended :: "string \<Rightarrow> bool" where
  \<comment> \<open>an ID ending in 4 and exactly 4 payload tokens\<close>
  "well_formed_extended line =
     (CHR '','' \<in> set line \<and> ends_in CHR ''4'' (id_token line)
      \<and> length (split (payload line) CHR '','') = 4)"

definition well_formed_hex :: "string \<Rightarrow> bool" where
  \<comment> \<open>an ID ending in 6 and 24 lowercase hex characters\<close>
  "well_formed_hex line =
     (CHR '','' \<in> set line \<and> ends_in CHR ''6'' (id_token line) \<and> hex_payload (payload line))"

definition well_formed :: "string \<Rightarrow> bool" where
  "well_formed line =
     (well_formed_default line \<or> well_formed_extended line \<or> well_formed_hex line)"

definition numeric_field :: "prim \<Rightarrow> number option" where
  \<comment> \<open>\<open>isNaN(x) ? null : Number(x)\<close>, the expression \<open>formatOutput\<close> applies to each of
      \<open>id\<close>, \<open>mnc\<close>, \<open>bytes_used\<close> and \<open>cellid\<close>\<close>
  "numeric_field x = (if isNaN x then None else Some (Number x))"

section \<open>Re-encoding a decoded Hex record\<close>

text \<open>
  The inverse the specification describes: the decoded numbers written back as
  zero-padded lowercase hex, four nibbles for \<open>mnc\<close>, four for \<open>bytes_used\<close>, eight for
  \<open>cellid\<close> and two for each octet of \<open>ip\<close>, in that order.
\<close>

definition hex_char :: "nat \<Rightarrow> char" where
  "hex_char d = (if d < 10 then char_of (48 + d) else char_of (87 + d))"

fun to_hex :: "nat \<Rightarrow> nat \<Rightarrow> string" where
  \<comment> \<open>\<open>to_hex k n\<close>: the \<open>k\<close> lowest nibbles of \<open>n\<close>, most significant first\<close>
  "to_hex 0 n = []"
| "to_hex (Suc k) n = to_hex k (n div 16) @ [hex_char (n mod 16)]"

definition field_nat :: "number option \<Rightarrow> nat" where
  \<comment> \<open>the natural number a numeric field holds\<close>
  "field_nat v = (case v of Some (Finite x) \<Rightarrow> nat \<lfloor>x\<rfloor> | _ \<Rightarrow> 0)"

definition octets_of :: "string option \<Rightarrow> nat list" where
  \<comment> \<open>the decimal octets of a dotted address\<close>
  "octets_of v =
     (case v of
        Some s \<Rightarrow> map (\<lambda>t. nat (digits_value 10 t)) (split s CHR ''.'')
      | None \<Rightarrow> [])"

definition reencode :: "usage_record \<Rightarrow> string" where
  "reencode r =
     to_hex 4 (field_nat (mnc r)) @ to_hex 4 (field_nat (bytes_used r))
       @ to_hex 8 (field_nat (cellid r)) @ concat (map (to_hex 2) (octets_of (ip r)))"

definition numeral_char :: "char \<Rightarrow> bool" where
  \<comment> \<open>the characters a numeric literal and the white space around it are made of: white
      space, letters and digits, the two signs and the dot\<close>
  "numeral_char c =
     (is_ws c \<or> is_digit_in 36 c \<or> c = CHR ''+'' \<or> c = CHR ''-'' \<or> c = CHR ''.'')"

section \<open>Dotted quads and normalized records, as the specification words them\<close>






section \<open>Properties of the built-in operations\<close>

subsection \<open>Integers up to \<open>2 ^ 53\<close> are binary64 values\<close>

lemma bitlength_pos: "0 < n \<Longrightarrow> bitlength n = Suc (bitlength (n div 2))"
  by (subst bitlength.simps) simp

lemma bitlength_nonpos: "n \<le> 0 \<Longrightarrow> bitlength n = 0"
  by (subst bitlength.simps) simp

lemma bitlength_bounds: "0 < n \<Longrightarrow> 2 ^ (bitlength n - 1) \<le> n \<and> n < 2 ^ bitlength n"
proof (induction n rule: bitlength.induct)
  case (1 n)
  show ?case
  proof (cases "n div 2 = 0")
    case True
    with "1.prems" have "n = 1" by presburger
    then show ?thesis by (simp add: bitlength_pos bitlength_nonpos)
  next
    case False
    with "1.prems" have pos: "0 < n div 2" by presburger
    from "1.IH" "1.prems" pos
    have ih: "2 ^ (bitlength (n div 2) - 1) \<le> n div 2 \<and> n div 2 < 2 ^ bitlength (n div 2)"
      by simp
    have b: "bitlength (n div 2) = Suc (bitlength (n div 2) - 1)"
      using pos by (simp add: bitlength_pos)
    have "(2::int) ^ bitlength (n div 2) = 2 * 2 ^ (bitlength (n div 2) - 1)"
      by (subst b) simp
    with ih have lo: "2 ^ bitlength (n div 2) \<le> n" by presburger
    from ih have hi: "n < 2 * 2 ^ bitlength (n div 2)" by presburger
    show ?thesis using lo hi "1.prems" by (simp add: bitlength_pos)
  qed
qed

lemma floor_log2_of_int:
  assumes "0 < n"
  shows "floor_log2 (of_int n) = int (bitlength n) - 1"
proof -
  have b1: "bitlength 1 = 1" by (simp add: bitlength_pos bitlength_nonpos)
  have pos: "0 < bitlength n" using assms by (simp add: bitlength_pos)
  have "(2::int) ^ (bitlength n - 1) \<le> n" using bitlength_bounds [OF assms] by simp
  then have "(of_int (2 ^ (bitlength n - 1)) :: rat) \<le> of_int n" by (simp only: of_int_le_iff)
  then have le: "(2::rat) ^ (bitlength n - 1) \<le> of_int n" by simp
  have "(2::rat) powi (int (bitlength n) - 1) = 2 ^ (bitlength n - 1)"
    using pos by (simp add: power_int_def nat_diff_distrib')
  with le show ?thesis by (simp add: floor_log2_def b1)
qed

lemma round_half_even_of_int: "round_half_even (of_int k) = k"
  by (simp add: round_half_even_def)

lemma double_of_pos_exact:
  assumes "0 < n" and "n \<le> 2 ^ 53"
  shows "double_of_pos (of_int n) = Finite (of_int n)"
proof -
  define e where "e = int (bitlength n) - 1"
  have fl: "floor_log2 (of_int n) = e" using assms(1) by (simp add: floor_log2_of_int e_def)
  have pos: "0 < bitlength n" using assms(1) by (simp add: bitlength_pos)
  then have e0: "0 \<le> e" by (simp add: e_def)
  have lo: "(2::int) ^ nat e \<le> n"
    using bitlength_bounds [OF assms(1)] pos by (simp add: e_def nat_diff_distrib')
  with assms(2) have "(2::int) ^ nat e \<le> 2 ^ 53" by linarith
  then have "nat e \<le> 53" by (rule power_le_imp_le_exp [rotated]) simp
  then have e53: "e \<le> 53" by linarith
  have u: "max e (- 1022) - 52 = e - 52" using e0 by simp
  show ?thesis
  proof (cases "e = 53")
    case True
    with lo assms(2) have n: "n = 2 ^ 53" by simp
    have q: "of_int n / (2 powi (e - 52)) = (of_int (2 ^ 52) :: rat)"
      using True n by simp
    have m: "round_half_even (of_int n / (2 powi (e - 52))) = 2 ^ 52"
      by (simp only: q round_half_even_of_int)
    have v: "(of_int (2 ^ 52) :: rat) * (2 powi (e - 52)) = of_int n"
      using True n by simp
    show ?thesis
      unfolding double_of_pos_def Let_def fl u m v using True by simp
  next
    case False
    with e53 have e52: "e \<le> 52" by simp
    have p: "(2::rat) powi (e - 52) = 1 / 2 ^ nat (52 - e)"
      using e52 by (simp add: power_int_def field_simps)
    have "of_int n / (2 powi (e - 52)) = (of_int (n * 2 ^ nat (52 - e)) :: rat)"
      by (simp add: p)
    then have m: "round_half_even (of_int n / (2 powi (e - 52))) = n * 2 ^ nat (52 - e)"
      by (simp only: round_half_even_of_int)
    have v: "(of_int (n * 2 ^ nat (52 - e)) :: rat) * (2 powi (e - 52)) = of_int n"
      by (simp add: p)
    show ?thesis
      unfolding double_of_pos_def Let_def fl u m v using e52 by simp
  qed
qed

lemma number_of_rat_exact:
  assumes "\<bar>n\<bar> \<le> 2 ^ 53"
  shows "number_of_rat (of_int n) = Finite (of_int n)"
proof -
  consider "n = 0" | "0 < n" | "n < 0" by linarith
  then show ?thesis
  proof cases
    case 1
    then show ?thesis by (simp add: number_of_rat_def)
  next
    case 2
    with assms show ?thesis by (simp add: number_of_rat_def double_of_pos_exact)
  next
    case 3
    with assms have "double_of_pos (of_int (- n)) = Finite (of_int (- n))"
      by (intro double_of_pos_exact) auto
    with 3 show ?thesis by (simp add: number_of_rat_def)
  qed
qed

subsection \<open>The guard on the type of the input\<close>

text \<open>
  The guard \<open>(!typeof input) == `string`\<close> of both files never holds: \<open>typeof\<close> gives a
  text that is not empty, its negation is \<open>false\<close>, and \<open>false\<close> is not equal to the
  text \<open>string\<close>.
\<close>

lemma not_string_guard_never: "not_string_guard input = False"
proof -
  have "StringToNumber ''string'' = NaN" by code_simp
  then show ?thesis by (simp add: not_string_guard_def)
qed

subsection \<open>Decimal digit strings\<close>

lemma is_digit_10_iff: "is_digit_in 10 c \<longleftrightarrow> 48 \<le> char_code c \<and> char_code c \<le> 57"
  by (auto simp: is_digit_in_def digit_value_def Let_def)

lemma digit_10_facts:
  assumes "is_digit_in 10 c"
  shows "\<not> is_ws c" and "\<not> is_exp_mark c" and "c \<noteq> CHR ''+''" and "c \<noteq> CHR ''-''"
    and "c \<noteq> CHR ''.''" and "c \<noteq> CHR '',''" and "c \<noteq> CHR ''I''"
    and "c \<noteq> CHR ''x''" and "c \<noteq> CHR ''X''" and "c \<noteq> CHR ''o''" and "c \<noteq> CHR ''O''"
    and "c \<noteq> CHR ''b''" and "c \<noteq> CHR ''B''" and "is_word c"
  using assms
  by (auto simp: is_digit_10_iff is_ws_def is_exp_mark_def is_word_def char_code_def)

lemma trim_no_ws:
  assumes "s \<noteq> []" and "\<not> is_ws (hd s)" and "\<not> is_ws (last s)"
  shows "trim s = s"
proof -
  from assms(1,2) have a: "dropWhile is_ws s = s" by (cases s) auto
  from assms(1,3) have b: "dropWhile is_ws (rev s) = rev s"
    by (cases "rev s") (auto simp: hd_rev [symmetric] simp del: hd_rev)
  show ?thesis by (simp add: trim_def a b)
qed

lemma digits_value_snoc: "digits_value r (ds @ [c]) = digits_value r ds * int r + dval c"
  by (simp add: digits_value_def)

lemma digits_value_nonneg: "0 \<le> digits_value r ds"
  by (induction ds rule: rev_induct) (auto simp: digits_value_snoc dval_def digits_value_def split: option.splits)

lemma nondecimal_literal_digits:
  assumes "list_all (is_digit_in 10) ds"
  shows "nondecimal_literal ds = None"
proof (cases ds)
  case Nil
  then show ?thesis by (simp add: nondecimal_literal_def)
next
  case (Cons c0 r)
  show ?thesis
  proof (cases r)
    case Nil
    with Cons show ?thesis by (simp add: nondecimal_literal_def)
  next
    case (Cons c1 r')
    with assms \<open>ds = c0 # r\<close> have "is_digit_in 10 c1" by simp
    from digit_10_facts(8-13) [OF this] Cons \<open>ds = c0 # r\<close>
    show ?thesis by (simp add: nondecimal_literal_def)
  qed
qed

lemma decimal_literal_digits:
  assumes "is_digits 10 ds"
  shows "decimal_literal ds = Some (of_int (digits_value 10 ds))"
proof -
  from assms have all: "\<forall>c\<in>set ds. is_digit_in 10 c" by (simp add: is_digits_def list_all_iff)
  have noexp: "\<forall>c\<in>set ds. \<not> is_exp_mark c"
    using all digit_10_facts(2) by blast
  have nodot: "\<forall>c\<in>set ds. c \<noteq> CHR ''.''"
    using all digit_10_facts(5) by blast
  have m: "takeWhile (\<lambda>c. \<not> is_exp_mark c) ds = ds" using noexp by (simp add: takeWhile_eq_all_conv)
  have x: "dropWhile (\<lambda>c. \<not> is_exp_mark c) ds = []" using noexp by simp
  have ip: "takeWhile (\<lambda>c. c \<noteq> CHR ''.'') ds = ds" using nodot by (simp add: takeWhile_eq_all_conv)
  have fr: "dropWhile (\<lambda>c. c \<noteq> CHR ''.'') ds = []" using nodot by simp
  show ?thesis
    unfolding decimal_literal_def Let_def m x ip fr exponent_part_def
    using assms by simp
qed

lemma StringToNumber_digits:
  assumes "is_digits 10 ds"
  shows "StringToNumber ds = number_of_rat (of_int (digits_value 10 ds))"
proof -
  from assms have ne: "ds \<noteq> []" and all: "list_all (is_digit_in 10) ds"
    by (simp_all add: is_digits_def)
  from ne all have h: "is_digit_in 10 (hd ds)" and l: "is_digit_in 10 (last ds)"
    by (auto simp: list_all_iff)
  have t: "trim ds = ds" using ne h l by (intro trim_no_ws) (auto dest: digit_10_facts(1))
  have inf: "ds \<noteq> ''Infinity''" using all by (auto simp: is_digit_10_iff char_code_def)
  have sd: "str_decimal ds = str_unsigned ds"
    using ne h by (cases ds) (auto simp: str_decimal_def dest: digit_10_facts)
  show ?thesis
    using ne inf
    by (simp add: StringToNumber_def t nondecimal_literal_digits [OF all] sd str_unsigned_def
        decimal_literal_digits [OF assms])
qed

lemma StringToNumber_digits_exact:
  assumes "is_digits 10 ds" and "digits_value 10 ds \<le> 2 ^ 53"
  shows "StringToNumber ds = Finite (of_int (digits_value 10 ds))"
  using assms digits_value_nonneg [of 10 ds]
  by (simp add: StringToNumber_digits number_of_rat_exact)

subsection \<open>Finding and splitting at the separator\<close>

lemma indexOf_absent: "c \<notin> set s \<Longrightarrow> indexOf s c = - 1"
  by (simp add: indexOf_def)

lemma takeWhile_first: "c \<notin> set a \<Longrightarrow> takeWhile (\<lambda>x. x \<noteq> c) (a @ c # rest) = a"
  by (induction a) auto

lemma indexOf_first: "c \<notin> set a \<Longrightarrow> indexOf (a @ c # rest) c = int (length a)"
  by (simp add: indexOf_def takeWhile_first)

lemma split_not_Nil: "split s c \<noteq> []"
  by (induction s) (auto split: list.splits)

lemma split_absent: "c \<notin> set t \<Longrightarrow> split t c = [t]"
  by (induction t) auto

lemma split_first: "c \<notin> set t \<Longrightarrow> split (t @ c # rest) c = t # split rest c"
  by (induction t) auto

lemma line_decomposition:
  assumes "c \<in> set s"
  shows "s = takeWhile (\<lambda>x. x \<noteq> c) s @ c # drop (Suc (length (takeWhile (\<lambda>x. x \<noteq> c) s))) s"
    and "c \<notin> set (takeWhile (\<lambda>x. x \<noteq> c) s)"
proof -
  from assms obtain a b where s: "s = a @ c # b" and a: "c \<notin> set a"
    by (auto dest: split_list_first)
  have t: "takeWhile (\<lambda>x. x \<noteq> c) s = a" using a by (simp add: s takeWhile_first)
  show "s = takeWhile (\<lambda>x. x \<noteq> c) s @ c # drop (Suc (length (takeWhile (\<lambda>x. x \<noteq> c) s))) s"
    unfolding t by (simp add: s)
  show "c \<notin> set (takeWhile (\<lambda>x. x \<noteq> c) s)" unfolding t by (rule a)
qed

subsection \<open>Dispatch in src/usage\_parser.js\<close>

lemma getFormatter_eq:
  "getFormatter id' =
     Some (if slice_last id' = ''6'' then HEX else if slice_last id' = ''4'' then EXTENDED else DEFAULT)"
  by (simp add: getFormatter_def parsingMethods_def HEX_def EXTENDED_def DEFAULT_def)

lemma parseSingle_text_no_separator:
  "CHR '','' \<notin> set s \<Longrightarrow> parseSingle_text s = Inr None"
  by (simp add: parseSingle_text_def indexOf_absent)

lemma parseSingle_text_line:
  assumes "CHR '','' \<notin> set id'"
  shows "parseSingle_text (id' @ CHR '','' # data) =
     (case getFormatter id' of
        None \<Rightarrow> Inl TypeError
      | Some formatter \<Rightarrow>
          if \<not> isValid formatter data then Inr None
          else (case process formatter id' data of Inl e \<Rightarrow> Inl e | Inr r \<Rightarrow> Inr (Some r)))"
  using assms by (simp add: parseSingle_text_def indexOf_first substr_def substr_from_def Let_def)

lemma parseSingle_Str: "parseSingle (Prim (Str s)) = parseSingle_text s"
  by (simp add: parseSingle_def not_string_guard_never)

subsection \<open>Dispatch in src/unnamed/part\_000\<close>

lemma parseSingle_p0_no_separator:
  "CHR '','' \<notin> set s \<Longrightarrow> parseSingle_p0 (Prim (Str s)) = Inr None"
  by (simp add: parseSingle_p0_def validateInput_p0_def not_string_guard_never split_absent)

lemma parseSingle_p0_line:
  assumes "CHR '','' \<notin> set id'"
  shows "parseSingle_p0 (Prim (Str (id' @ CHR '','' # data))) =
     (if slice_last id' = ''4'' then parseExtended_p0 (id' # split data CHR '','')
      else if slice_last id' = ''6'' then parseHex_p0 (id' # split data CHR '','')
      else parseBasic_p0 (id' # split data CHR '',''))"
proof -
  have "2 \<le> length (id' # split data CHR '','')"
    using split_not_Nil [of data "CHR '',''"] by (cases "split data CHR '',''") auto
  then show ?thesis
    using assms split_not_Nil [of data "CHR '',''"]
    by (simp add: parseSingle_p0_def validateInput_p0_def not_string_guard_never split_first
        PROCESS_EXTENDED_def PROCESS_HEX_def Let_def)
qed

subsection \<open>A batch\<close>

lemma forEach_push_all_return:
  assumes "\<forall>x\<in>set xs. \<exists>y. f x = Inr y"
  shows "forEach_push f xs out = Inr (out @ map (\<lambda>x. projr (f x)) xs)"
  using assms
proof (induction xs arbitrary: out)
  case Nil
  then show ?case by simp
next
  case (Cons x xs)
  then obtain y where y: "f x = Inr y" by auto
  from Cons have "forEach_push f xs (out @ [y]) = Inr ((out @ [y]) @ map (\<lambda>x. projr (f x)) xs)"
    by simp
  with y show ?case by simp
qed

subsection \<open>Repetition and the payload pattern\<close>

lemma iterate_Nil: "((\<lambda>sts. concat (map (g :: 'a \<Rightarrow> 'a list) sts)) ^^ n) [] = []"
  by (induction n) auto

lemma iterate_append:
  "((\<lambda>sts. concat (map (g :: 'a \<Rightarrow> 'a list) sts)) ^^ n) (xs @ ys) =
     ((\<lambda>sts. concat (map g sts)) ^^ n) xs @ ((\<lambda>sts. concat (map g sts)) ^^ n) ys"
  by (induction n arbitrary: xs ys) auto

lemma iterate_concat:
  "((\<lambda>sts. concat (map (g :: 'a \<Rightarrow> 'a list) sts)) ^^ n) sts =
     concat (map (\<lambda>s. ((\<lambda>sts. concat (map g sts)) ^^ n) [s]) sts)"
proof (induction sts)
  case Nil
  show ?case by (simp add: iterate_Nil)
next
  case (Cons s sts)
  have "((\<lambda>sts. concat (map g sts)) ^^ n) (s # sts) =
      ((\<lambda>sts. concat (map g sts)) ^^ n) [s] @ ((\<lambda>sts. concat (map g sts)) ^^ n) sts"
    using iterate_append [where g = g and n = n and xs = "[s]" and ys = sts] by simp
  with Cons show ?case by simp
qed

lemma rx_match_Rep_0: "rx_match (Rep 0 a) st = [st]"
  by simp

lemma rx_match_Rep_Suc:
  "rx_match (Rep (Suc n) a) st = concat (map (rx_match (Rep n a)) (rx_match a st))"
proof -
  define F where "F = (\<lambda>sts. concat (map (rx_match a) sts))"
  have one: "F [st] = rx_match a st" by (simp add: F_def)
  have "rx_match (Rep (Suc n) a) st = (F ^^ Suc n) [st]" by (simp add: F_def)
  also have "\<dots> = (F ^^ n) (F [st])" by (simp only: funpow_Suc_right o_apply)
  also have "\<dots> = (F ^^ n) (rx_match a st)" by (simp only: one)
  also have "\<dots> = concat (map (\<lambda>s. (F ^^ n) [s]) (rx_match a st))"
    unfolding F_def by (rule iterate_concat)
  also have "(\<lambda>s. (F ^^ n) [s]) = rx_match (Rep n a)"
    by (rule ext) (simp add: F_def)
  finally show ?thesis .
qed

declare rx_match.simps(5) [simp del]

lemma rx_match_Rep_Cls:
  "rx_match (Rep n (Cls rs)) (p, s) =
     (if n \<le> length s \<and> list_all (in_class rs) (take n s)
      then [(if n = 0 then p else Some (s ! (n - 1)), drop n s)] else [])"
proof (induction n arbitrary: p s)
  case 0
  show ?case by (simp add: rx_match_Rep_0)
next
  case (Suc n)
  show ?case
  proof (cases s)
    case Nil
    then show ?thesis by (simp add: rx_match_Rep_Suc)
  next
    case (Cons c cs)
    show ?thesis
      unfolding rx_match_Rep_Suc
      using Suc [of "Some c" cs] Cons
      by (cases n) auto
  qed
qed

lemma test_from_Bol_later: "test_from (Seq Bol r) (Some c) s = False"
  by (induction s arbitrary: c) auto

lemma test_Bol: "test (Seq Bol r) s = (rx_match r (None, s) \<noteq> [])"
  by (cases s) (auto simp: test_def test_from_Bol_later)

lemma test_hex_rx: "test hex_rx data = hex_payload data"
proof -
  have "test hex_rx data =
      (24 \<le> length data \<and> list_all is_hex_lower (take 24 data) \<and> drop 24 data = [])"
    unfolding hex_rx_def test_Bol
    by (auto simp add: rx_match_Rep_Cls is_hex_lower_def [abs_def])
  also have "\<dots> = hex_payload data"
    by (auto simp: hex_payload_def)
  finally show ?thesis .
qed

subsection \<open>Hexadecimal digit strings\<close>

lemma is_hex_lower_iff:
  "is_hex_lower c \<longleftrightarrow>
     (48 \<le> char_code c \<and> char_code c \<le> 57) \<or> (97 \<le> char_code c \<and> char_code c \<le> 102)"
  by (auto simp: is_hex_lower_def in_class_def char_code_def)

lemma hex_lower_digit: "is_hex_lower c \<Longrightarrow> is_digit_in 16 c"
  by (auto simp: is_hex_lower_iff is_digit_in_def digit_value_def Let_def)

lemma hex_lower_dval: "is_hex_lower c \<Longrightarrow> 0 \<le> dval c \<and> dval c < 16"
  by (auto simp: is_hex_lower_iff dval_def digit_value_def Let_def)

lemma hex_lower_facts:
  assumes "is_hex_lower c"
  shows "\<not> is_ws c" and "c \<noteq> CHR ''+''" and "c \<noteq> CHR ''-''" and "c \<noteq> CHR ''x''" and "c \<noteq> CHR ''X''"
  using assms by (auto simp: is_hex_lower_iff is_ws_def char_code_def)

lemma digits_value_hex_bound:
  "list_all is_hex_lower z \<Longrightarrow> digits_value 16 z < 16 ^ length z"
proof (induction z rule: rev_induct)
  case Nil
  show ?case by (simp add: digits_value_def)
next
  case (snoc c z)
  then have "digits_value 16 z < 16 ^ length z" and "dval c < 16" and "0 \<le> dval c"
    using hex_lower_dval [of c] by simp_all
  then show ?case by (simp add: digits_value_snoc)
qed

lemma strip_hex_prefix_hex:
  assumes "list_all is_hex_lower z"
  shows "strip_hex_prefix z = z"
proof (cases z)
  case Nil
  then show ?thesis by (simp add: strip_hex_prefix_def)
next
  case (Cons c0 r)
  show ?thesis
  proof (cases r)
    case Nil
    with Cons show ?thesis by (simp add: strip_hex_prefix_def)
  next
    case (Cons c1 r')
    with assms \<open>z = c0 # r\<close> have "is_hex_lower c1" by simp
    from hex_lower_facts(4,5) [OF this] Cons \<open>z = c0 # r\<close>
    show ?thesis by (simp add: strip_hex_prefix_def)
  qed
qed

lemma parseInt_hex:
  assumes "z \<noteq> []" and "list_all is_hex_lower z"
  shows "parseInt z 16 = number_of_rat (of_int (digits_value 16 z))"
proof -
  from assms obtain c r where z: "z = c # r" and c: "is_hex_lower c" by (cases z) auto
  have ws: "dropWhile is_ws z = z" using hex_lower_facts(1) [OF c] by (simp add: z)
  have sign: "hd z \<noteq> CHR ''+''" "hd z \<noteq> CHR ''-''"
    using hex_lower_facts(2,3) [OF c] by (simp_all add: z)
  have "\<forall>x\<in>set z. is_digit_in 16 x"
    using assms(2) hex_lower_digit by (auto simp: list_all_iff)
  then have tw: "takeWhile (is_digit_in 16) z = z" by (simp add: takeWhile_eq_all_conv)
  show ?thesis
    unfolding parseInt_def Let_def ws
    using assms(1) sign by (simp add: strip_hex_prefix_hex [OF assms(2)] tw)
qed

lemma parseInt_hex_exact:
  assumes "z \<noteq> []" and "list_all is_hex_lower z" and "length z \<le> 13"
  shows "parseInt z 16 = Finite (of_int (digits_value 16 z))"
proof -
  have "digits_value 16 z < 16 ^ length z" by (rule digits_value_hex_bound [OF assms(2)])
  also have "(16::int) ^ length z \<le> 16 ^ 13" using assms(3) by (intro power_increasing) simp_all
  also have "(16::int) ^ 13 \<le> 2 ^ 53" by simp
  finally have "digits_value 16 z \<le> 2 ^ 53" by simp
  with digits_value_nonneg [of 16 z] have "\<bar>digits_value 16 z\<bar> \<le> 2 ^ 53" by simp
  then show ?thesis by (simp add: parseInt_hex [OF assms(1,2)] number_of_rat_exact)
qed

lemma substring_within: "a \<le> b \<Longrightarrow> b \<le> length s \<Longrightarrow> substring s a b = take (b - a) (drop a s)"
  by (simp add: substring_def Let_def min_def max_def)

subsection \<open>Decimal text of an octet and the address pattern\<close>

lemma dec_digits_1: "n < 10 \<Longrightarrow> dec_digits n = [digit_char n]"
  by (subst dec_digits.simps) simp

lemma dec_digits_2:
  "10 \<le> n \<Longrightarrow> n < 100 \<Longrightarrow> dec_digits n = [digit_char (n div 10), digit_char (n mod 10)]"
  by (subst dec_digits.simps) (simp add: dec_digits_1)

lemma dec_digits_3:
  "100 \<le> n \<Longrightarrow> n < 1000 \<Longrightarrow>
   dec_digits n = [digit_char (n div 100), digit_char (n div 10 mod 10), digit_char (n mod 10)]"
  by (subst dec_digits.simps) (simp add: dec_digits_2 div_mult2_eq [symmetric])

lemma char_code_digit_char: "d < 10 \<Longrightarrow> char_code (digit_char d) = 48 + d"
  by (simp add: char_code_def digit_char_def)

lemma in_class_digit_char_iff:
  "d < 10 \<Longrightarrow> in_class [(lo, hi)] (digit_char d) \<longleftrightarrow> char_code lo \<le> 48 + d \<and> 48 + d \<le> char_code hi"
  by (simp add: in_class_def char_code_digit_char)

lemma is_word_digit_char: "d < 10 \<Longrightarrow> is_word (digit_char d)"
  by (simp add: is_word_def char_code_digit_char)

lemma seq_reach:
  "st1 \<in> set (rx_match a st) \<Longrightarrow> st2 \<in> set (rx_match b st1) \<Longrightarrow> st2 \<in> set (rx_match (Seq a b) st)"
  by auto

lemma opt_skip: "st \<in> set (rx_match (Opt a) st)"
  by simp

lemma opt_take: "st' \<in> set (rx_match a st) \<Longrightarrow> st' \<in> set (rx_match (Opt a) st)"
  by simp

lemma alt_left: "st' \<in> set (rx_match a st) \<Longrightarrow> st' \<in> set (rx_match (Alt a b) st)"
  by simp

lemma alt_right: "st' \<in> set (rx_match b st) \<Longrightarrow> st' \<in> set (rx_match (Alt a b) st)"
  by simp

lemma cls_digit_reach:
  assumes "d < 10" and "char_code lo \<le> 48 + d" and "48 + d \<le> char_code hi"
  shows "(Some (digit_char d), rest) \<in> set (rx_match (Cls [(lo, hi)]) (p, digit_char d # rest))"
  using assms by (simp add: in_class_digit_char_iff)

lemma char_codes:
  "char_code CHR ''0'' = 48" "char_code CHR ''1'' = 49" "char_code CHR ''2'' = 50"
  "char_code CHR ''4'' = 52" "char_code CHR ''5'' = 53" "char_code CHR ''9'' = 57"
  "char_code CHR ''.'' = 46"
  by (simp_all add: char_code_def)

lemma digit_reach:
  "d < 10 \<Longrightarrow>
   (Some (digit_char d), rest) \<in> set (rx_match (cls_range CHR ''0'' CHR ''9'') (p, digit_char d # rest))"
  unfolding cls_range_def by (rule cls_digit_reach) (simp_all add: char_codes)

lemma xxx_reach_1:
  assumes "d < 10"
  shows "(Some (digit_char d), rest) \<in> set (rx_match octet_xxx (p, digit_char d # rest))"
  unfolding octet_xxx_def
  by (rule seq_reach [OF opt_skip seq_reach [OF digit_reach [OF assms] opt_skip]])

lemma xxx_reach_2:
  assumes "d1 < 10" and "d2 < 10"
  shows "(Some (digit_char d2), rest)
    \<in> set (rx_match octet_xxx (p, digit_char d1 # digit_char d2 # rest))"
  unfolding octet_xxx_def
  by (rule seq_reach [OF opt_skip
        seq_reach [OF digit_reach [OF assms(1)] opt_take [OF digit_reach [OF assms(2)]]]])

lemma xxx_reach_3:
  assumes "d2 < 10" and "d3 < 10"
  shows "(Some (digit_char d3), rest)
    \<in> set (rx_match octet_xxx (p, digit_char 1 # digit_char d2 # digit_char d3 # rest))"
proof -
  have one: "(Some (digit_char 1), digit_char d2 # digit_char d3 # rest)
      \<in> set (rx_match (cls_range CHR ''0'' CHR ''1'') (p, digit_char 1 # digit_char d2 # digit_char d3 # rest))"
    unfolding cls_range_def by (rule cls_digit_reach) (simp_all add: char_codes)
  show ?thesis
    unfolding octet_xxx_def
    by (rule seq_reach [OF opt_take [OF one]
          seq_reach [OF digit_reach [OF assms(1)] opt_take [OF digit_reach [OF assms(2)]]]])
qed

lemma two_reach:
  "(Some (digit_char 2), rest) \<in> set (rx_match (cls_char CHR ''2'') (p, digit_char 2 # rest))"
  unfolding cls_char_def by (rule cls_digit_reach) (simp_all add: char_codes)

lemma reach_2xx:
  assumes "d2 < 5" and "d3 < 10"
  shows "(Some (digit_char d3), rest)
    \<in> set (rx_match octet_2xx (p, digit_char 2 # digit_char d2 # digit_char d3 # rest))"
proof -
  have mid: "(Some (digit_char d2), digit_char d3 # rest)
      \<in> set (rx_match (cls_range CHR ''0'' CHR ''4'') (Some (digit_char 2), digit_char d2 # digit_char d3 # rest))"
    unfolding cls_range_def using assms(1) by (intro cls_digit_reach) (simp_all add: char_codes)
  show ?thesis
    unfolding octet_2xx_def
    by (rule seq_reach [OF two_reach seq_reach [OF mid digit_reach [OF assms(2)]]])
qed

lemma reach_25x:
  assumes "d3 < 6"
  shows "(Some (digit_char d3), rest)
    \<in> set (rx_match octet_25x (p, digit_char 2 # digit_char 5 # digit_char d3 # rest))"
proof -
  have mid: "(Some (digit_char 5), digit_char d3 # rest)
      \<in> set (rx_match (cls_char CHR ''5'') (Some (digit_char 2), digit_char 5 # digit_char d3 # rest))"
    unfolding cls_char_def by (rule cls_digit_reach) (simp_all add: char_codes)
  have lst: "(Some (digit_char d3), rest)
      \<in> set (rx_match (cls_range CHR ''0'' CHR ''5'') (Some (digit_char 5), digit_char d3 # rest))"
    unfolding cls_range_def using assms by (intro cls_digit_reach) (simp_all add: char_codes)
  show ?thesis
    unfolding octet_25x_def
    by (rule seq_reach [OF two_reach seq_reach [OF mid lst]])
qed

lemma hundreds_digit: "100 * q \<le> n \<Longrightarrow> n < 100 * Suc q \<Longrightarrow> (n::nat) div 100 = q"
  by (rule div_nat_eqI) simp_all

lemma tens_bounds: "10 * a \<le> n \<Longrightarrow> n < 10 * b \<Longrightarrow> a \<le> (n::nat) div 10 \<and> n div 10 < b"
  by (simp add: less_eq_div_iff_mult_less_eq div_less_iff_less_mult mult.commute)

lemma tens_digit_low: "(20::nat) \<le> k \<Longrightarrow> k < 25 \<Longrightarrow> k mod 10 < 5"
  by presburger

lemma tens_digit_five: "(25::nat) \<le> k \<Longrightarrow> k < 26 \<Longrightarrow> k mod 10 = 5"
  by presburger

lemma units_digit_high: "250 \<le> n \<Longrightarrow> n < 256 \<Longrightarrow> (n::nat) mod 10 < 6"
proof -
  assume a: "250 \<le> n" "n < 256"
  define j where "j = n - 250"
  have n: "n = 10 * 25 + j" and j: "j < 6" using a by (simp_all add: j_def)
  have "n mod 10 = j mod 10" unfolding n by (simp only: mod_mult_self4)
  with j show ?thesis by simp
qed

lemma octet_reach:
  assumes "n < 256"
  shows "(Some (last (dec_digits n)), rest) \<in> set (rx_match octet_alt (p, dec_digits n @ rest))"
proof -
  consider "n < 10" | "10 \<le> n \<and> n < 100" | "100 \<le> n \<and> n < 200" | "200 \<le> n \<and> n < 250"
    | "250 \<le> n \<and> n < 256" using assms by linarith
  then show ?thesis
  proof cases
    case 1
    have "(Some (digit_char n), rest) \<in> set (rx_match octet_alt (p, digit_char n # rest))"
      unfolding octet_alt_def by (rule alt_right [OF alt_right [OF xxx_reach_1 [OF 1]]])
    then show ?thesis by (simp add: dec_digits_1 [OF 1])
  next
    case 2
    then have d: "n div 10 < 10" "n mod 10 < 10" using tens_bounds [of 1 n 10] by simp_all
    have "(Some (digit_char (n mod 10)), rest)
        \<in> set (rx_match octet_alt (p, digit_char (n div 10) # digit_char (n mod 10) # rest))"
      unfolding octet_alt_def by (rule alt_right [OF alt_right [OF xxx_reach_2 [OF d]]])
    moreover have "dec_digits n = [digit_char (n div 10), digit_char (n mod 10)]"
      using 2 by (simp add: dec_digits_2)
    ultimately show ?thesis by simp
  next
    case 3
    then have h: "n div 100 = 1" using hundreds_digit [of 1 n] by simp
    have d: "n div 10 mod 10 < 10" "n mod 10 < 10" by simp_all
    have "(Some (digit_char (n mod 10)), rest)
        \<in> set (rx_match octet_alt
                (p, digit_char 1 # digit_char (n div 10 mod 10) # digit_char (n mod 10) # rest))"
      unfolding octet_alt_def by (rule alt_right [OF alt_right [OF xxx_reach_3 [OF d]]])
    moreover have "dec_digits n = [digit_char 1, digit_char (n div 10 mod 10), digit_char (n mod 10)]"
      using 3 h by (simp add: dec_digits_3)
    ultimately show ?thesis by simp
  next
    case 4
    then have h: "n div 100 = 2" using hundreds_digit [of 2 n] by simp
    from 4 have "20 \<le> n div 10 \<and> n div 10 < 25" using tens_bounds [of 20 n 25] by simp
    then have t: "n div 10 mod 10 < 5" using tens_digit_low by blast
    have u: "n mod 10 < 10" by simp
    have "(Some (digit_char (n mod 10)), rest)
        \<in> set (rx_match octet_alt
                (p, digit_char 2 # digit_char (n div 10 mod 10) # digit_char (n mod 10) # rest))"
      unfolding octet_alt_def by (rule alt_right [OF alt_left [OF reach_2xx [OF t u]]])
    moreover have "dec_digits n = [digit_char 2, digit_char (n div 10 mod 10), digit_char (n mod 10)]"
      using 4 h by (simp add: dec_digits_3)
    ultimately show ?thesis by simp
  next
    case 5
    then have h: "n div 100 = 2" using hundreds_digit [of 2 n] by simp
    from 5 have "25 \<le> n div 10 \<and> n div 10 < 26" using tens_bounds [of 25 n 26] by simp
    then have t: "n div 10 mod 10 = 5" using tens_digit_five by blast
    have u: "n mod 10 < 6" using 5 units_digit_high by blast
    have "(Some (digit_char (n mod 10)), rest)
        \<in> set (rx_match octet_alt (p, digit_char 2 # digit_char 5 # digit_char (n mod 10) # rest))"
      unfolding octet_alt_def by (rule alt_left [OF reach_25x [OF u]])
    moreover have "dec_digits n = [digit_char 2, digit_char 5, digit_char (n mod 10)]"
      using 5 h t by (simp add: dec_digits_3)
    ultimately show ?thesis by simp
  qed
qed

lemma dec_digits_Cons: "\<exists>d cs. d < 10 \<and> dec_digits n = digit_char d # cs"
proof (induction n rule: dec_digits.induct)
  case (1 n)
  show ?case
  proof (cases "n < 10")
    case True
    then show ?thesis by (auto simp: dec_digits_1)
  next
    case False
    with 1 obtain d cs where "d < 10" and "dec_digits (n div 10) = digit_char d # cs" by auto
    with False show ?thesis by (subst dec_digits.simps) auto
  qed
qed

lemma first_group_reach:
  assumes "n < 256"
  shows "(Some (last (dec_digits n)), rest)
    \<in> set (rx_match (Alt (Seq WordB octet_25x) (Alt (Seq WordB octet_2xx) (Seq WordB octet_xxx)))
             (None, dec_digits n @ rest))"
proof -
  obtain d cs where d: "d < 10" and n: "dec_digits n = digit_char d # cs"
    using dec_digits_Cons by blast
  have b: "at_boundary (None, dec_digits n @ rest)"
    by (simp add: at_boundary_def n is_word_digit_char [OF d])
  have "(Some (last (dec_digits n)), rest) \<in> set (rx_match octet_alt (None, dec_digits n @ rest))"
    by (rule octet_reach [OF assms])
  then show ?thesis using b by (simp add: octet_alt_def)
qed

lemma dot_octet_reach:
  assumes "n < 256"
  shows "(Some (last (dec_digits n)), rest)
    \<in> set (rx_match (Seq (cls_char CHR ''.'') octet_alt) (p, CHR ''.'' # dec_digits n @ rest))"
proof -
  have "(Some CHR ''.'', dec_digits n @ rest)
      \<in> set (rx_match (cls_char CHR ''.'') (p, CHR ''.'' # dec_digits n @ rest))"
    by (simp add: cls_char_def in_class_def)
  then show ?thesis by (rule seq_reach) (rule octet_reach [OF assms])
qed

lemma rep_reach_Suc:
  "st1 \<in> set (rx_match a st) \<Longrightarrow> st2 \<in> set (rx_match (Rep n a) st1)
   \<Longrightarrow> st2 \<in> set (rx_match (Rep (Suc n) a) st)"
  by (auto simp: rx_match_Rep_Suc)

lemma test_here: "rx_match r (None, s) \<noteq> [] \<Longrightarrow> test r s"
  by (cases s) (simp_all add: test_def)

lemma test_ip_rx_dotted_quad:
  assumes "a < 256" and "b < 256" and "c < 256" and "d < 256"
  shows "test ip_rx (dotted_quad a b c d)"
proof -
  let ?dot = "Seq (cls_char CHR ''.'') octet_alt"
  have s4: "(Some (last (dec_digits d)), []) \<in> set (rx_match (Rep 0 ?dot) (Some (last (dec_digits d)), []))"
    by (simp add: rx_match_Rep_0)
  have s3: "(Some (last (dec_digits d)), [])
      \<in> set (rx_match (Rep (Suc 0) ?dot) (Some (last (dec_digits c)), CHR ''.'' # dec_digits d @ []))"
    by (rule rep_reach_Suc [OF dot_octet_reach [OF assms(4)] s4])
  have s2: "(Some (last (dec_digits d)), [])
      \<in> set (rx_match (Rep 2 ?dot) (Some (last (dec_digits b)), CHR ''.'' # dec_digits c @ CHR ''.'' # dec_digits d @ []))"
    using rep_reach_Suc [OF dot_octet_reach [OF assms(3)] s3]
    by (simp add: numeral_2_eq_2)
  have s1: "(Some (last (dec_digits d)), [])
      \<in> set (rx_match (Rep 3 ?dot)
               (Some (last (dec_digits a)),
                CHR ''.'' # dec_digits b @ CHR ''.'' # dec_digits c @ CHR ''.'' # dec_digits d @ []))"
    using rep_reach_Suc [OF dot_octet_reach [OF assms(2)] s2 [unfolded numeral_2_eq_2]]
    by (simp add: numeral_3_eq_3)
  have "(Some (last (dec_digits d)), []) \<in> set (rx_match ip_rx (None, dotted_quad a b c d))"
    unfolding ip_rx_def dotted_quad_def
    using seq_reach [OF first_group_reach [OF assms(1)] s1] by simp
  then have "rx_match ip_rx (None, dotted_quad a b c d) \<noteq> []" by auto
  then show ?thesis by (rule test_here)
qed

subsection \<open>The Hex handler on a valid payload\<close>

lemma hex_slice:
  assumes "hex_payload data"
  shows "list_all is_hex_lower (take n (drop a data))"
proof -
  from assms have all: "list_all is_hex_lower data" by (simp add: hex_payload_def)
  have "set (take n (drop a data)) \<subseteq> set data"
    by (meson set_drop_subset set_take_subset subset_trans)
  with all show ?thesis by (auto simp: list_all_iff)
qed

lemma parseInt_slice:
  assumes "hex_payload data" and "a < b" and "b \<le> 24" and "b - a \<le> 13"
  shows "parseInt (substring data a b) 16 = Finite (of_int (hex_field data a b))"
proof -
  from assms(1) have len: "length data = 24" by (simp add: hex_payload_def)
  have sub: "substring data a b = take (b - a) (drop a data)"
    using assms(2,3) len by (intro substring_within) simp_all
  have ne: "take (b - a) (drop a data) \<noteq> []" using assms(2,3) len by simp
  have "length (take (b - a) (drop a data)) \<le> 13" using assms(4) by simp
  from parseInt_hex_exact [OF ne hex_slice [OF assms(1)] this]
  show ?thesis by (simp add: sub hex_field_def)
qed

lemma hex_field_bounds:
  assumes "hex_payload data"
  shows "0 \<le> hex_field data a b" and "hex_field data a b < 16 ^ (b - a)"
proof -
  show "0 \<le> hex_field data a b" by (simp add: hex_field_def digits_value_nonneg)
  have "hex_field data a b < 16 ^ length (take (b - a) (drop a data))"
    unfolding hex_field_def by (rule digits_value_hex_bound [OF hex_slice [OF assms]])
  also have "\<dots> \<le> 16 ^ (b - a)" by (intro power_increasing) simp_all
  finally show "hex_field data a b < 16 ^ (b - a)" .
qed

lemma num_to_string_nat: "n < 10 ^ 21 \<Longrightarrow> num_to_string (Finite (of_nat n)) = Inr (dec_digits n)"
proof -
  assume "n < 10 ^ 21"
  then have "(of_nat n :: rat) < of_nat (10 ^ 21)" by (simp only: of_nat_less_iff)
  then show ?thesis by simp
qed

lemma octet_text_valid:
  assumes "hex_payload data" and "a + 2 \<le> 24"
  shows "octet_text data a = Inr (dec_digits (nat (hex_field data a (a + 2))))"
    and "nat (hex_field data a (a + 2)) < 256"
proof -
  define v where "v = hex_field data a (a + 2)"
  have p: "parseInt (substring data a (a + 2)) 16 = Finite (of_int v)"
    unfolding v_def using assms by (intro parseInt_slice) simp_all
  from hex_field_bounds [OF assms(1), of a "a + 2"]
  have b: "0 \<le> v" "v < 256" by (simp_all add: v_def)
  then show "nat (hex_field data a (a + 2)) < 256" by (simp add: v_def)
  from b have small: "nat v < 10 ^ 21" by simp
  from b(1) have "(of_int v :: rat) = of_nat (nat v)" by simp
  then have "num_to_string (Finite (of_int v)) = Inr (dec_digits (nat v))"
    using num_to_string_nat [OF small] by (simp only:)
  then show "octet_text data a = Inr (dec_digits (nat (hex_field data a (a + 2))))"
    unfolding octet_text_def p by (simp only: v_def)
qed

lemma hex_ip_valid:
  assumes "hex_payload data"
  shows "hex_ip data =
     Inr (dotted_quad (nat (hex_field data 16 18)) (nat (hex_field data 18 20))
            (nat (hex_field data 20 22)) (nat (hex_field data 22 24)))"
  using octet_text_valid(1) [OF assms, of 16] octet_text_valid(1) [OF assms, of 18]
    octet_text_valid(1) [OF assms, of 20] octet_text_valid(1) [OF assms, of 22]
  by (simp add: hex_ip_def dotted_quad_def)

lemma test_ip_rx_hex:
  assumes "hex_payload data"
  shows "test ip_rx (dotted_quad (nat (hex_field data 16 18)) (nat (hex_field data 18 20))
            (nat (hex_field data 20 22)) (nat (hex_field data 22 24)))"
  using octet_text_valid(2) [OF assms, of 16] octet_text_valid(2) [OF assms, of 18]
    octet_text_valid(2) [OF assms, of 20] octet_text_valid(2) [OF assms, of 22]
  by (intro test_ip_rx_dotted_quad) simp_all

lemma hex_fields_valid:
  assumes "hex_payload data"
  shows "formatOutput v (Num (parseInt (substring data 0 4) 16)) (Num (parseInt (substring data 4 8) 16))
           Undefined (Num (parseInt (substring data 8 16) 16))
           (Str (dotted_quad (nat (hex_field data 16 18)) (nat (hex_field data 18 20))
                  (nat (hex_field data 20 22)) (nat (hex_field data 22 24))))
     = \<lparr> rec_id = (if isNaN v then None else Some (Number v)),
         dmcc = None,
         mnc = Some (Finite (of_int (hex_field data 0 4))),
         bytes_used = Some (Finite (of_int (hex_field data 4 8))),
         cellid = Some (Finite (of_int (hex_field data 8 16))),
         ip = Some (dotted_quad (nat (hex_field data 16 18)) (nat (hex_field data 18 20))
                      (nat (hex_field data 20 22)) (nat (hex_field data 22 24))) \<rparr>"
proof -
  have a: "parseInt (substring data 0 4) 16 = Finite (of_int (hex_field data 0 4))"
    using assms by (intro parseInt_slice) simp_all
  have b: "parseInt (substring data 4 8) 16 = Finite (of_int (hex_field data 4 8))"
    using assms by (intro parseInt_slice) simp_all
  have c: "parseInt (substring data 8 16) 16 = Finite (of_int (hex_field data 8 16))"
    using assms by (intro parseInt_slice) simp_all
  show ?thesis
    unfolding a b c
    by (simp add: formatOutput_def isNaN_def Number_def test_ip_rx_hex [OF assms])
qed

lemma hex_process_valid:
  assumes "hex_payload data"
  shows "hex_process id' data =
     Inr \<lparr> rec_id = (if isNaN (Str id') then None else Some (Number (Str id'))),
           dmcc = None,
           mnc = Some (Finite (of_int (hex_field data 0 4))),
           bytes_used = Some (Finite (of_int (hex_field data 4 8))),
           cellid = Some (Finite (of_int (hex_field data 8 16))),
           ip = Some (dotted_quad (nat (hex_field data 16 18)) (nat (hex_field data 18 20))
                        (nat (hex_field data 20 22)) (nat (hex_field data 22 24))) \<rparr>"
  by (simp only: hex_process_def Let_def hex_ip_valid [OF assms] sum.case hex_fields_valid [OF assms])

lemma parseHex_p0_valid:
  assumes "hex_payload data"
  shows "parseHex_p0 [id', data] =
     Inr (Some \<lparr> rec_id = (if isNaN (Str id') then None else Some (Number (Str id'))),
           dmcc = None,
           mnc = Some (Finite (of_int (hex_field data 0 4))),
           bytes_used = Some (Finite (of_int (hex_field data 4 8))),
           cellid = Some (Finite (of_int (hex_field data 8 16))),
           ip = Some (dotted_quad (nat (hex_field data 16 18)) (nat (hex_field data 18 20))
                        (nat (hex_field data 20 22)) (nat (hex_field data 22 24))) \<rparr>)"
proof -
  have e: "element [id', data] 0 = Str id'" "element [id', data] 1 = Str data"
    by (simp_all add: element_def)
  have t: "test hex_rx data" using assms by (simp add: test_hex_rx)
  show ?thesis
    by (simp only: parseHex_p0_def Let_def e prim.case t not_True_eq_False if_False
        hex_ip_valid [OF assms] sum.case hex_fields_valid [OF assms])
qed

lemma hex_payload_no_separator: "hex_payload data \<Longrightarrow> CHR '','' \<notin> set data"
proof
  assume h: "hex_payload data" and "CHR '','' \<in> set data"
  then have "is_hex_lower CHR '',''" by (auto simp: hex_payload_def list_all_iff)
  then show False by (simp add: is_hex_lower_iff char_code_def)
qed

section \<open>Lines in the Hex format\<close>

lemma parse_Str:
  "parse (Prim (Str s)) = (case parseSingle_text s of Inl e \<Rightarrow> Inl e | Inr r \<Rightarrow> Inr [r])"
  by (simp add: parse_def parseSingle_Str)

lemma parse_p0_Str:
  "parse_p0 (Prim (Str s)) =
     (case parseSingle_p0 (Prim (Str s)) of Inl e \<Rightarrow> Inl e | Inr r \<Rightarrow> Inr [r])"
  by (simp add: parse_p0_def)

lemma parseSingle_text_hex:
  assumes "CHR '','' \<notin> set id'" and "id' \<noteq> []" and "last id' = CHR ''6''" and "hex_payload data"
  shows "parseSingle_text (id' @ CHR '','' # data) =
     Inr (Some \<lparr> rec_id = (if isNaN (Str id') then None else Some (Number (Str id'))),
           dmcc = None,
           mnc = Some (Finite (of_int (hex_field data 0 4))),
           bytes_used = Some (Finite (of_int (hex_field data 4 8))),
           cellid = Some (Finite (of_int (hex_field data 8 16))),
           ip = Some (dotted_quad (nat (hex_field data 16 18)) (nat (hex_field data 18 20))
                        (nat (hex_field data 20 22)) (nat (hex_field data 22 24))) \<rparr>)"
proof -
  have f: "getFormatter id' = Some HEX"
    using assms(2,3) by (simp add: getFormatter_eq slice_last_def)
  have v: "isValid HEX data" using assms(4) by (simp add: HEX_def test_hex_rx)
  have p: "process HEX id' data = hex_process id' data" by (simp add: HEX_def)
  show ?thesis
    by (simp add: parseSingle_text_line [OF assms(1)] f v p hex_process_valid [OF assms(4)])
qed

lemma parseSingle_p0_hex:
  assumes "CHR '','' \<notin> set id'" and "id' \<noteq> []" and "last id' = CHR ''6''" and "hex_payload data"
  shows "parseSingle_p0 (Prim (Str (id' @ CHR '','' # data))) =
     Inr (Some \<lparr> rec_id = (if isNaN (Str id') then None else Some (Number (Str id'))),
           dmcc = None,
           mnc = Some (Finite (of_int (hex_field data 0 4))),
           bytes_used = Some (Finite (of_int (hex_field data 4 8))),
           cellid = Some (Finite (of_int (hex_field data 8 16))),
           ip = Some (dotted_quad (nat (hex_field data 16 18)) (nat (hex_field data 18 20))
                        (nat (hex_field data 20 22)) (nat (hex_field data 22 24))) \<rparr>)"
proof -
  have s: "slice_last id' = ''6''" using assms(2,3) by (simp add: slice_last_def)
  have t: "split data CHR '','' = [data]"
    by (rule split_absent [OF hex_payload_no_separator [OF assms(4)]])
  show ?thesis
    by (simp add: parseSingle_p0_line [OF assms(1)] s t parseHex_p0_valid [OF assms(4)])
qed

text \<open>
  Claim C3: for every line whose ID token ends in \<open>6\<close> and whose payload is exactly 24
  characters of \<open>[0-9a-f]\<close>, the record has \<open>mnc\<close> the base-16 value of characters 0
  to 4, \<open>bytes_used\<close> that of characters 4 to 8, \<open>cellid\<close> that of characters 8 to 16,
  and \<open>ip\<close> the base-10 values of the two-character slices at 16, 18, 20 and 22 joined
  with dots. Both files return this record.
\<close>

theorem hex_line_decoded:
  assumes "CHR '','' \<notin> set id'" and "id' \<noteq> []" and "last id' = CHR ''6''" and "hex_payload data"
  shows "\<exists>r. parse (Prim (Str (id' @ '','' @ data))) = Inr [Some r]
           \<and> parse_p0 (Prim (Str (id' @ '','' @ data))) = Inr [Some r]
           \<and> mnc r = Some (Finite (of_int (hex_field data 0 4)))
           \<and> bytes_used r = Some (Finite (of_int (hex_field data 4 8)))
           \<and> cellid r = Some (Finite (of_int (hex_field data 8 16)))
           \<and> ip r = Some (dotted_quad (nat (hex_field data 16 18)) (nat (hex_field data 18 20))
                             (nat (hex_field data 20 22)) (nat (hex_field data 22 24)))"
  using parseSingle_text_hex [OF assms] parseSingle_p0_hex [OF assms]
  by (simp add: parse_Str parse_p0_Str)

theorem hex_line_decoded_witness:
  "\<exists>r. parse (Prim (Str ''45546,deadbeef00000000cafe0102'')) = Inr [Some r]
       \<and> parse_p0 (Prim (Str ''45546,deadbeef00000000cafe0102'')) = Inr [Some r]
       \<and> mnc r = Some (Finite 57005)
       \<and> bytes_used r = Some (Finite 48879)
       \<and> cellid r = Some (Finite 0)
       \<and> ip r = Some ''202.254.1.2''"
proof -
  have h: "hex_payload ''deadbeef00000000cafe0102''" by code_simp
  have v: "hex_field ''deadbeef00000000cafe0102'' 0 4 = 57005"
    "hex_field ''deadbeef00000000cafe0102'' 4 8 = 48879"
    "hex_field ''deadbeef00000000cafe0102'' 8 16 = 0"
    by code_simp+
  have q: "dotted_quad (nat (hex_field ''deadbeef00000000cafe0102'' 16 18))
             (nat (hex_field ''deadbeef00000000cafe0102'' 18 20))
             (nat (hex_field ''deadbeef00000000cafe0102'' 20 22))
             (nat (hex_field ''deadbeef00000000cafe0102'' 22 24)) = ''202.254.1.2''"
    by code_simp
  from hex_line_decoded [of "''45546''" "''deadbeef00000000cafe0102''", OF _ _ _ h]
  show ?thesis unfolding v q by simp
qed

section \<open>Lines in the Extended and Default formats\<close>

lemma formatOutput_fields:
  "formatOutput i m b d c p =
     \<lparr> rec_id = numeric_field i,
       dmcc = (case d of Str s \<Rightarrow> Some s | _ \<Rightarrow> None),
       mnc = numeric_field m,
       bytes_used = numeric_field b,
       cellid = numeric_field c,
       ip = (case p of Str s \<Rightarrow> if test ip_rx s then Some s else None | _ \<Rightarrow> None) \<rparr>"
  by (cases p) (simp_all add: formatOutput_def numeric_field_def)

lemma numeric_field_Undefined: "numeric_field Undefined = None"
  by (simp add: numeric_field_def isNaN_def)

lemma element_Cons:
  "element (x # ts) 0 = Str x"
  "element (x # ts) 1 = element ts 0"
  "element (x # ts) 2 = element ts 1"
  "element (x # ts) 3 = element ts 2"
  "element (x # ts) 4 = element ts 3"
  "element (x # ts) (Suc i) = element ts i"
  by (auto simp: element_def)


lemma slice_last_ends_in: "slice_last s = [c] \<longleftrightarrow> ends_in c s"
  by (simp add: slice_last_def ends_in_def)

lemma ends_in_distinct: "ends_in CHR ''4'' s \<Longrightarrow> \<not> ends_in CHR ''6'' s"
  by (auto simp: ends_in_def)

lemma parseSingle_text_extended:
  assumes "CHR '','' \<notin> set id'" and "ends_in CHR ''4'' id'"
    and "length (split data CHR '','') = 4"
  shows "parseSingle_text (id' @ CHR '','' # data) =
     Inr (Some (formatOutput (Str id') (element (split data CHR '','') 1)
       (element (split data CHR '','') 2) (element (split data CHR '','') 0)
       (element (split data CHR '','') 3) Undefined))"
proof -
  have f: "getFormatter id' = Some EXTENDED"
    using assms(2) ends_in_distinct [OF assms(2)] by (simp add: getFormatter_eq slice_last_ends_in)
  show ?thesis
    using assms(3) by (simp add: parseSingle_text_line [OF assms(1)] f EXTENDED_def Let_def)
qed

lemma parseSingle_p0_extended:
  assumes "CHR '','' \<notin> set id'" and "ends_in CHR ''4'' id'"
  shows "parseSingle_p0 (Prim (Str (id' @ CHR '','' # data))) =
     Inr (Some (formatOutput (Str id') (element (split data CHR '','') 1)
       (element (split data CHR '','') 2) (element (split data CHR '','') 0)
       (element (split data CHR '','') 3) Undefined))"
  using assms(2)
  by (simp add: parseSingle_p0_line [OF assms(1)] slice_last_ends_in parseExtended_p0_def element_Cons)

lemma parseSingle_text_default:
  assumes "CHR '','' \<notin> set id'" and "\<not> ends_in CHR ''6'' id'" and "\<not> ends_in CHR ''4'' id'"
    and "\<not> isNaN (Str data)"
  shows "parseSingle_text (id' @ CHR '','' # data) =
     Inr (Some (formatOutput (Str id') Undefined (Str data) Undefined Undefined Undefined))"
proof -
  have f: "getFormatter id' = Some DEFAULT"
    using assms(2,3) by (simp add: getFormatter_eq slice_last_ends_in)
  show ?thesis
    using assms(4) by (simp add: parseSingle_text_line [OF assms(1)] f DEFAULT_def)
qed

lemma parseSingle_p0_default:
  assumes "CHR '','' \<notin> set id'" and "\<not> ends_in CHR ''6'' id'" and "\<not> ends_in CHR ''4'' id'"
    and "CHR '','' \<notin> set data"
  shows "parseSingle_p0 (Prim (Str (id' @ CHR '','' # data))) =
     Inr (Some (formatOutput (Str id') Undefined (Str data) Undefined Undefined Undefined))"
  using assms(2,3)
  by (simp add: parseSingle_p0_line [OF assms(1)] slice_last_ends_in parseBasic_p0_def
      split_absent [OF assms(4)] element_Cons)




lemma numeric_field_digits:
  assumes "is_digits 10 ds" and "digits_value 10 ds \<le> 2 ^ 53"
  shows "numeric_field (Str ds) = Some (Finite (of_int (digits_value 10 ds)))"
  by (simp add: numeric_field_def isNaN_def Number_def StringToNumber_digits_exact [OF assms])

lemma is_digits_no_separator: "is_digits 10 ds \<Longrightarrow> CHR '','' \<notin> set ds"
  using digit_10_facts(6) by (auto simp: is_digits_def list_all_iff)

text \<open>
  Claim C6 says that for every line \<open><digits>,<digits>\<close> in the Default format the
  record's \<open>id\<close> and \<open>bytes_used\<close> equal the two numeric tokens and the other four
  fields are absent. A number of the program is a binary64 value: the claim holds for
  tokens that denote at most \<open>2 ^ 53\<close>, and the token \<open>9007199254740993\<close>
  (\<open>2 ^ 53 + 1\<close>) comes out as \<open>9007199254740992\<close>.
\<close>

theorem default_line_beyond_2_53:
  "parse (Prim (Str ''9007199254740993,1''))
     = Inr [Some \<lparr> rec_id = Some (Finite 9007199254740992), dmcc = None, mnc = None,
                    bytes_used = Some (Finite 1), cellid = None, ip = None \<rparr>]
   \<and> digits_value 10 ''9007199254740993'' = 9007199254740993"
  by code_simp

text \<open>
  Claim C6 as amended: for every line \<open><digits>,<digits>\<close> whose ID ends in neither
  \<open>6\<close> nor \<open>4\<close> and whose two tokens each denote at most \<open>2 ^ 53\<close>, the record's
  \<open>id\<close> and \<open>bytes_used\<close> equal the two tokens and \<open>mnc\<close>, \<open>dmcc\<close>, \<open>cellid\<close>
  and \<open>ip\<close> are absent. Both files return this record.
\<close>

theorem default_line_fields:
  assumes "is_digits 10 ids" and "\<not> ends_in CHR ''6'' ids" and "\<not> ends_in CHR ''4'' ids"
    and "is_digits 10 bs"
    and "digits_value 10 ids \<le> 2 ^ 53" and "digits_value 10 bs \<le> 2 ^ 53"
  shows "parse (Prim (Str (ids @ '','' @ bs)))
           = Inr [Some \<lparr> rec_id = Some (Finite (of_int (digits_value 10 ids))), dmcc = None,
                          mnc = None, bytes_used = Some (Finite (of_int (digits_value 10 bs))),
                          cellid = None, ip = None \<rparr>]
         \<and> parse_p0 (Prim (Str (ids @ '','' @ bs)))
           = Inr [Some \<lparr> rec_id = Some (Finite (of_int (digits_value 10 ids))), dmcc = None,
                          mnc = None, bytes_used = Some (Finite (of_int (digits_value 10 bs))),
                          cellid = None, ip = None \<rparr>]"
proof -
  have c1: "CHR '','' \<notin> set ids" by (rule is_digits_no_separator [OF assms(1)])
  have c2: "CHR '','' \<notin> set bs" by (rule is_digits_no_separator [OF assms(4)])
  have nb: "numeric_field (Str bs) = Some (Finite (of_int (digits_value 10 bs)))"
    by (rule numeric_field_digits [OF assms(4,6)])
  have ni: "numeric_field (Str ids) = Some (Finite (of_int (digits_value 10 ids)))"
    by (rule numeric_field_digits [OF assms(1,5)])
  from nb have v: "\<not> isNaN (Str bs)" by (simp add: numeric_field_def split: if_splits)
  show ?thesis
    by (simp add: parse_Str parse_p0_Str parseSingle_text_default [OF c1 assms(2,3) v]
        parseSingle_p0_default [OF c1 assms(2,3) c2] formatOutput_fields ni nb
        numeric_field_Undefined)
qed

theorem default_line_fields_witness:
  "parse (Prim (Str ''123,500''))
     = Inr [Some \<lparr> rec_id = Some (Finite 123), dmcc = None, mnc = None,
                    bytes_used = Some (Finite 500), cellid = None, ip = None \<rparr>]
   \<and> parse_p0 (Prim (Str ''123,500''))
     = Inr [Some \<lparr> rec_id = Some (Finite 123), dmcc = None, mnc = None,
                    bytes_used = Some (Finite 500), cellid = None, ip = None \<rparr>]"
proof -
  have d: "is_digits 10 ''123''" "is_digits 10 ''500''" by code_simp+
  have e: "\<not> ends_in CHR ''6'' ''123''" "\<not> ends_in CHR ''4'' ''123''"
    by (simp_all add: ends_in_def)
  have v: "digits_value 10 ''123'' = 123" "digits_value 10 ''500'' = 500" by code_simp+
  have b: "digits_value 10 ''123'' \<le> 2 ^ 53" "digits_value 10 ''500'' \<le> 2 ^ 53"
    unfolding v by simp_all
  from default_line_fields [OF d(1) e d(2) b]
  show ?thesis unfolding v by simp
qed

section \<open>The two files on well-formed lines\<close>

lemma line_split:
  assumes "CHR '','' \<in> set line"
  shows "line = id_token line @ CHR '','' # payload line" and "CHR '','' \<notin> set (id_token line)"
  using line_decomposition [OF assms] by (simp_all add: id_token_def payload_def)

lemma parse_agree_default:
  assumes "well_formed_default line"
  shows "parse (Prim (Str line)) = parse_p0 (Prim (Str line))"
    and "\<exists>r. parse (Prim (Str line)) = Inr [Some r]"
proof -
  from assms have c: "CHR '','' \<in> set line" and e: "\<not> ends_in CHR ''6'' (id_token line)"
    "\<not> ends_in CHR ''4'' (id_token line)" and p: "CHR '','' \<notin> set (payload line)"
    and v: "\<not> isNaN (Str (payload line))"
    by (simp_all add: well_formed_default_def)
  note l = line_split [OF c]
  have a: "parseSingle_text line = Inr (Some (formatOutput (Str (id_token line)) Undefined
      (Str (payload line)) Undefined Undefined Undefined))"
    by (subst l(1)) (rule parseSingle_text_default [OF l(2) e v])
  have b: "parseSingle_p0 (Prim (Str line)) = Inr (Some (formatOutput (Str (id_token line)) Undefined
      (Str (payload line)) Undefined Undefined Undefined))"
    by (subst l(1)) (rule parseSingle_p0_default [OF l(2) e p])
  show "parse (Prim (Str line)) = parse_p0 (Prim (Str line))"
    by (simp add: parse_Str parse_p0_Str a b)
  show "\<exists>r. parse (Prim (Str line)) = Inr [Some r]"
    by (simp add: parse_Str a)
qed

lemma parse_agree_extended:
  assumes "well_formed_extended line"
  shows "parse (Prim (Str line)) = parse_p0 (Prim (Str line))"
    and "\<exists>r. parse (Prim (Str line)) = Inr [Some r]"
proof -
  from assms have c: "CHR '','' \<in> set line" and e: "ends_in CHR ''4'' (id_token line)"
    and n: "length (split (payload line) CHR '','') = 4"
    by (simp_all add: well_formed_extended_def)
  note l = line_split [OF c]
  let ?ts = "split (payload line) CHR '',''"
  have a: "parseSingle_text line = Inr (Some (formatOutput (Str (id_token line)) (element ?ts 1)
      (element ?ts 2) (element ?ts 0) (element ?ts 3) Undefined))"
    by (subst l(1)) (rule parseSingle_text_extended [OF l(2) e n])
  have b: "parseSingle_p0 (Prim (Str line)) = Inr (Some (formatOutput (Str (id_token line))
      (element ?ts 1) (element ?ts 2) (element ?ts 0) (element ?ts 3) Undefined))"
    by (subst l(1)) (rule parseSingle_p0_extended [OF l(2) e])
  show "parse (Prim (Str line)) = parse_p0 (Prim (Str line))"
    by (simp add: parse_Str parse_p0_Str a b)
  show "\<exists>r. parse (Prim (Str line)) = Inr [Some r]"
    by (simp add: parse_Str a)
qed

lemma parse_agree_hex:
  assumes "well_formed_hex line"
  shows "parse (Prim (Str line)) = parse_p0 (Prim (Str line))"
    and "\<exists>r. parse (Prim (Str line)) = Inr [Some r]"
proof -
  from assms have c: "CHR '','' \<in> set line" and e: "ends_in CHR ''6'' (id_token line)"
    and h: "hex_payload (payload line)"
    by (simp_all add: well_formed_hex_def)
  note l = line_split [OF c]
  from e have e': "id_token line \<noteq> []" "last (id_token line) = CHR ''6''"
    by (simp_all add: ends_in_def)
  have a: "\<exists>r. parseSingle_text line = Inr (Some r) \<and> parseSingle_p0 (Prim (Str line)) = Inr (Some r)"
    by (subst l(1), subst (2) l(1))
      (simp add: parseSingle_text_hex [OF l(2) e' h] parseSingle_p0_hex [OF l(2) e' h])
  then show "parse (Prim (Str line)) = parse_p0 (Prim (Str line))"
    by (auto simp: parse_Str parse_p0_Str)
  from a show "\<exists>r. parse (Prim (Str line)) = Inr [Some r]"
    by (auto simp: parse_Str)
qed

text \<open>
  Claim C10: on every line that is well-formed for the format its ID selects (Default: an
  ID ending in neither \<open>6\<close> nor \<open>4\<close> and a single numeric payload token; Extended: an
  ID ending in \<open>4\<close> and exactly four payload tokens; Hex: an ID ending in \<open>6\<close> and 24
  lowercase hex characters), \<open>parse\<close> of src/usage\_parser.js and \<open>parse\<close> of
  src/unnamed/part\_000 return the same record.
\<close>

theorem parse_files_agree:
  assumes "well_formed line"
  shows "parse (Prim (Str line)) = parse_p0 (Prim (Str line))
         \<and> (\<exists>r. parse (Prim (Str line)) = Inr [Some r])"
  using assms parse_agree_default parse_agree_extended parse_agree_hex
  unfolding well_formed_def by blast

theorem parse_files_agree_witness:
  "well_formed ''123,500'' \<and> well_formed ''774,310,12,500,77''
   \<and> well_formed ''45546,deadbeef00000000cafe0102''
   \<and> parse (Prim (Str ''123,500'')) = parse_p0 (Prim (Str ''123,500''))
   \<and> parse (Prim (Str ''774,310,12,500,77'')) = parse_p0 (Prim (Str ''774,310,12,500,77''))
   \<and> parse (Prim (Str ''45546,deadbeef00000000cafe0102''))
       = parse_p0 (Prim (Str ''45546,deadbeef00000000cafe0102''))"
proof -
  have a: "well_formed ''123,500''" by code_simp
  have b: "well_formed ''774,310,12,500,77''" by code_simp
  have c: "well_formed ''45546,deadbeef00000000cafe0102''" by code_simp
  from parse_files_agree [OF a] parse_files_agree [OF b] parse_files_agree [OF c] a b c
  show ?thesis by blast
qed

section \<open>Batches of lines\<close>

lemma parseSingle_text_returns: "\<exists>y. parseSingle_text s = Inr y"
proof (cases "CHR '','' \<in> set s")
  case False
  then show ?thesis by (simp add: parseSingle_text_no_separator)
next
  case True
  note l = line_split [OF True]
  let ?id = "id_token s" and ?data = "payload s"
  have eq: "parseSingle_text s = parseSingle_text (?id @ CHR '','' # ?data)" using l(1) by simp
  consider "slice_last ?id = ''6''" | "slice_last ?id \<noteq> ''6''" "slice_last ?id = ''4''"
    | "slice_last ?id \<noteq> ''6''" "slice_last ?id \<noteq> ''4''" by blast
  then show ?thesis
  proof cases
    case 1
    show ?thesis
    proof (cases "hex_payload ?data")
      case True
      then show ?thesis
        unfolding eq parseSingle_text_line [OF l(2)]
        by (simp add: getFormatter_eq 1 HEX_def test_hex_rx hex_process_valid)
    next
      case False
      then show ?thesis
        unfolding eq parseSingle_text_line [OF l(2)]
        by (simp add: getFormatter_eq 1 HEX_def test_hex_rx)
    qed
  next
    case 2
    then show ?thesis
      unfolding eq parseSingle_text_line [OF l(2)]
      by (simp add: getFormatter_eq EXTENDED_def Let_def)
  next
    case 3
    then show ?thesis
      unfolding eq parseSingle_text_line [OF l(2)]
      by (simp add: getFormatter_eq DEFAULT_def)
  qed
qed

lemma parseHex_p0_returns: "\<exists>y. parseHex_p0 (id' # t # ts) = Inr y"
proof (cases "hex_payload t")
  case True
  have e: "element (id' # t # ts) 0 = Str id'" "element (id' # t # ts) 1 = Str t"
    by (simp_all add: element_def)
  have t: "test hex_rx t" using True by (simp add: test_hex_rx)
  show ?thesis
    by (simp only: parseHex_p0_def Let_def e prim.case t not_True_eq_False if_False
        hex_ip_valid [OF True] sum.case) simp
next
  case False
  then show ?thesis by (simp add: parseHex_p0_def element_def test_hex_rx)
qed

lemma parseHex_p0_rejected: "\<not> hex_payload t \<Longrightarrow> parseHex_p0 (id' # t # ts) = Inr None"
  by (simp add: parseHex_p0_def element_def test_hex_rx)

lemma parseSingle_p0_returns: "\<exists>y. parseSingle_p0 (Prim (Str s)) = Inr y"
proof (cases "CHR '','' \<in> set s")
  case False
  then show ?thesis by (simp add: parseSingle_p0_no_separator)
next
  case True
  note l = line_split [OF True]
  let ?id = "id_token s" and ?data = "payload s"
  have eq: "parseSingle_p0 (Prim (Str s)) = parseSingle_p0 (Prim (Str (?id @ CHR '','' # ?data)))"
    using l(1) by simp
  obtain t ts where sp: "split ?data CHR '','' = t # ts"
    using split_not_Nil [of ?data "CHR '',''"] by (cases "split ?data CHR '',''") auto
  show ?thesis
    unfolding eq parseSingle_p0_line [OF l(2)] sp
    using parseHex_p0_returns [of ?id t ts]
    by (simp add: parseExtended_p0_def parseBasic_p0_def)
qed

lemma parse_batch:
  "parse (Arr (map (\<lambda>l. Prim (Str l)) ls)) = Inr (map (\<lambda>l. projr (parseSingle_text l)) ls)"
proof -
  have "\<forall>x\<in>set (map (\<lambda>l. Prim (Str l)) ls). \<exists>y. parseSingle x = Inr y"
    using parseSingle_text_returns by (auto simp: parseSingle_Str)
  from forEach_push_all_return [OF this, of "[]"]
  show ?thesis by (simp add: parse_def comp_def parseSingle_Str)
qed

lemma parse_p0_batch:
  "parse_p0 (Arr (map (\<lambda>l. Prim (Str l)) ls)) =
     Inr (map (\<lambda>l. projr (parseSingle_p0 (Prim (Str l)))) ls)"
proof -
  have "\<forall>x\<in>set (map (\<lambda>l. Prim (Str l)) ls). \<exists>y. parseSingle_p0 x = Inr y"
    using parseSingle_p0_returns by auto
  from forEach_push_all_return [OF this, of "[]"]
  show ?thesis by (simp add: parse_p0_def comp_def)
qed

lemma parse_line_projr: "parse (Prim (Str s)) = Inr [projr (parseSingle_text s)]"
  using parseSingle_text_returns [of s] by (auto simp: parse_Str)

lemma parse_p0_line_projr: "parse_p0 (Prim (Str s)) = Inr [projr (parseSingle_p0 (Prim (Str s)))]"
  using parseSingle_p0_returns [of s] by (auto simp: parse_p0_Str)

lemma parseSingle_text_rejected:
  assumes "CHR '','' \<in> set s" and "getFormatter (id_token s) = Some f"
    and "\<not> isValid f (payload s)"
  shows "parseSingle_text s = Inr None"
proof -
  note l = line_split [OF assms(1)]
  have "parseSingle_text (id_token s @ CHR '','' # payload s) = Inr None"
    unfolding parseSingle_text_line [OF l(2)] using assms(2,3) by simp
  then show ?thesis using l(1) by simp
qed

lemma parseSingle_p0_hex_rejected:
  assumes "CHR '','' \<in> set s" and "ends_in CHR ''6'' (id_token s)"
    and "\<not> hex_payload (hd (split (payload s) CHR '',''))"
  shows "parseSingle_p0 (Prim (Str s)) = Inr None"
proof -
  note l = line_split [OF assms(1)]
  obtain t ts where sp: "split (payload s) CHR '','' = t # ts"
    using split_not_Nil [of "payload s" "CHR '',''"] by (cases "split (payload s) CHR '',''") auto
  from assms(2) have s6: "slice_last (id_token s) = ''6''" by (simp add: slice_last_ends_in)
  have "parseSingle_p0 (Prim (Str (id_token s @ CHR '','' # payload s))) = Inr None"
    unfolding parseSingle_p0_line [OF l(2)] sp
    using assms(3) s6 by (simp add: sp parseHex_p0_rejected)
  then show ?thesis using l(1) by simp
qed

lemma parseHex_p0_accepts:
  assumes "hex_payload t"
  shows "\<exists>r. parseHex_p0 (id' # t # ts) = Inr (Some r)"
proof -
  have e: "element (id' # t # ts) 0 = Str id'" "element (id' # t # ts) 1 = Str t"
    by (simp_all add: element_def)
  have t: "test hex_rx t" using assms by (simp add: test_hex_rx)
  show ?thesis
    by (simp only: parseHex_p0_def Let_def e prim.case t not_True_eq_False if_False
        hex_ip_valid [OF assms] sum.case) simp
qed

lemma parseSingle_p0_hex_accepted:
  assumes "CHR '','' \<in> set s" and "ends_in CHR ''6'' (id_token s)"
    and "hex_payload (hd (split (payload s) CHR '',''))"
  shows "\<exists>r. parseSingle_p0 (Prim (Str s)) = Inr (Some r)"
proof -
  note l = line_split [OF assms(1)]
  obtain t ts where sp: "split (payload s) CHR '','' = t # ts"
    using split_not_Nil [of "payload s" "CHR '',''"] by (cases "split (payload s) CHR '',''") auto
  from assms(2) have s6: "slice_last (id_token s) = ''6''" by (simp add: slice_last_ends_in)
  from assms(3) have h: "hex_payload t" by (simp add: sp)
  have "\<exists>r. parseSingle_p0 (Prim (Str (id_token s @ CHR '','' # payload s))) = Inr (Some r)"
    unfolding parseSingle_p0_line [OF l(2)] sp
    using s6 parseHex_p0_accepts [OF h] by simp
  then show ?thesis using l(1) by simp
qed

lemma parseSingle_p0_unchecked:
  assumes "CHR '','' \<in> set s" and "\<not> ends_in CHR ''6'' (id_token s)"
  shows "\<exists>r. parseSingle_p0 (Prim (Str s)) = Inr (Some r)"
proof -
  note l = line_split [OF assms(1)]
  from assms(2) have "slice_last (id_token s) \<noteq> ''6''" by (simp add: slice_last_ends_in)
  then have "\<exists>r. parseSingle_p0 (Prim (Str (id_token s @ CHR '','' # payload s))) = Inr (Some r)"
    unfolding parseSingle_p0_line [OF l(2)]
    by (simp add: parseExtended_p0_def parseBasic_p0_def)
  then show ?thesis using l(1) by simp
qed

text \<open>
  A batch of text lines gives one slot per line, in order, and a slot is what its line
  gives when parsed alone. A line without a separator gives \<open>null\<close> in both files, and
  so does, in src/usage\_parser.js, a line whose payload the validator of the selected
  handler rejects. In src/unnamed/part\_000 the Hex handler tests its payload; the other
  two handlers test nothing and return a record for every line that has a separator.
\<close>

lemma batch_slots:
  "\<exists>out out0.
      parse (Arr (map (\<lambda>l. Prim (Str l)) ls)) = Inr out
    \<and> parse_p0 (Arr (map (\<lambda>l. Prim (Str l)) ls)) = Inr out0
    \<and> length out = length ls \<and> length out0 = length ls
    \<and> (\<forall>i<length ls.
          parse (Prim (Str (ls ! i))) = Inr [out ! i]
        \<and> parse_p0 (Prim (Str (ls ! i))) = Inr [out0 ! i]
        \<and> (CHR '','' \<notin> set (ls ! i) \<longrightarrow> out ! i = None \<and> out0 ! i = None)
        \<and> (\<forall>f. CHR '','' \<in> set (ls ! i) \<and> getFormatter (id_token (ls ! i)) = Some f
                \<and> \<not> isValid f (payload (ls ! i)) \<longrightarrow> out ! i = None)
        \<and> (CHR '','' \<in> set (ls ! i) \<and> ends_in CHR ''6'' (id_token (ls ! i))
              \<and> \<not> hex_payload (hd (split (payload (ls ! i)) CHR '','')) \<longrightarrow> out0 ! i = None)
        \<and> (CHR '','' \<in> set (ls ! i) \<and> ends_in CHR ''6'' (id_token (ls ! i))
              \<and> hex_payload (hd (split (payload (ls ! i)) CHR '','')) \<longrightarrow> out0 ! i \<noteq> None)
        \<and> (CHR '','' \<in> set (ls ! i) \<and> \<not> ends_in CHR ''6'' (id_token (ls ! i))
              \<longrightarrow> out0 ! i \<noteq> None))"
proof (intro exI conjI allI impI)
  show "parse (Arr (map (\<lambda>l. Prim (Str l)) ls)) = Inr (map (\<lambda>l. projr (parseSingle_text l)) ls)"
    by (rule parse_batch)
  show "parse_p0 (Arr (map (\<lambda>l. Prim (Str l)) ls)) =
      Inr (map (\<lambda>l. projr (parseSingle_p0 (Prim (Str l)))) ls)"
    by (rule parse_p0_batch)
  show "length (map (\<lambda>l. projr (parseSingle_text l)) ls) = length ls" by simp
  show "length (map (\<lambda>l. projr (parseSingle_p0 (Prim (Str l)))) ls) = length ls" by simp
next
  fix i assume "i < length ls"
  then show "parse (Prim (Str (ls ! i))) = Inr [map (\<lambda>l. projr (parseSingle_text l)) ls ! i]"
    by (simp add: parse_line_projr)
next
  fix i assume "i < length ls"
  then show "parse_p0 (Prim (Str (ls ! i))) =
      Inr [map (\<lambda>l. projr (parseSingle_p0 (Prim (Str l)))) ls ! i]"
    by (simp add: parse_p0_line_projr)
next
  fix i assume "i < length ls" and "CHR '','' \<notin> set (ls ! i)"
  then show "map (\<lambda>l. projr (parseSingle_text l)) ls ! i = None"
    by (simp add: parseSingle_text_no_separator)
next
  fix i assume "i < length ls" and "CHR '','' \<notin> set (ls ! i)"
  then show "map (\<lambda>l. projr (parseSingle_p0 (Prim (Str l)))) ls ! i = None"
    by (simp add: parseSingle_p0_no_separator)
next
  fix i f
  assume "i < length ls"
    and "CHR '','' \<in> set (ls ! i) \<and> getFormatter (id_token (ls ! i)) = Some f
         \<and> \<not> isValid f (payload (ls ! i))"
  then show "map (\<lambda>l. projr (parseSingle_text l)) ls ! i = None"
    by (simp add: parseSingle_text_rejected)
next
  fix i
  assume "i < length ls"
    and "CHR '','' \<in> set (ls ! i) \<and> ends_in CHR ''6'' (id_token (ls ! i))
         \<and> \<not> hex_payload (hd (split (payload (ls ! i)) CHR '',''))"
  then show "map (\<lambda>l. projr (parseSingle_p0 (Prim (Str l)))) ls ! i = None"
    by (simp add: parseSingle_p0_hex_rejected)
next
  fix i
  assume i: "i < length ls"
    and "CHR '','' \<in> set (ls ! i) \<and> ends_in CHR ''6'' (id_token (ls ! i))
         \<and> hex_payload (hd (split (payload (ls ! i)) CHR '',''))"
  then obtain r where "parseSingle_p0 (Prim (Str (ls ! i))) = Inr (Some r)"
    using parseSingle_p0_hex_accepted by blast
  with i show "map (\<lambda>l. projr (parseSingle_p0 (Prim (Str l)))) ls ! i \<noteq> None"
    by simp
next
  fix i
  assume i: "i < length ls"
    and "CHR '','' \<in> set (ls ! i) \<and> \<not> ends_in CHR ''6'' (id_token (ls ! i))"
  then obtain r where "parseSingle_p0 (Prim (Str (ls ! i))) = Inr (Some r)"
    using parseSingle_p0_unchecked by blast
  with i show "map (\<lambda>l. projr (parseSingle_p0 (Prim (Str l)))) ls ! i \<noteq> None"
    by simp
qed

text \<open>
  Claim C2 says that for every batch the output has one slot per line, in order, and that
  a line without a separator, or whose payload the shape validator of the selected handler
  rejects, gives \<open>null\<close> in its slot and never a partial record, whatever its siblings.
  In src/unnamed/part\_000 the Extended and the Default handler return a partial record
  for a payload of the wrong shape: the line \<open>14,a,b\<close> has two payload tokens where the
  Extended format has four, and \<open>1,2,3\<close> has two where the Default format has one
  number. For both lines src/usage\_parser.js gives \<open>null\<close>, as the Hex handler of
  part\_000 does for its own payload (\<open>16,xyz\<close>).
\<close>

theorem shape_unchecked_in_part_000:
  "\<not> isValid EXTENDED ''a,b''
   \<and> parse (Arr [Prim (Str ''123,500''), Prim (Str ''14,a,b'')])
       = Inr [Some \<lparr> rec_id = Some (Finite 123), dmcc = None, mnc = None,
                      bytes_used = Some (Finite 500), cellid = None, ip = None \<rparr>,
              None]
   \<and> parse_p0 (Arr [Prim (Str ''123,500''), Prim (Str ''14,a,b'')])
       = Inr [Some \<lparr> rec_id = Some (Finite 123), dmcc = None, mnc = None,
                      bytes_used = Some (Finite 500), cellid = None, ip = None \<rparr>,
              Some \<lparr> rec_id = Some (Finite 14), dmcc = Some ''a'', mnc = None,
                      bytes_used = None, cellid = None, ip = None \<rparr>]
   \<and> \<not> isValid DEFAULT ''2,3''
   \<and> parse (Arr [Prim (Str ''1,2,3'')]) = Inr [None]
   \<and> parse_p0 (Arr [Prim (Str ''1,2,3'')])
       = Inr [Some \<lparr> rec_id = Some (Finite 1), dmcc = None, mnc = None,
                      bytes_used = Some (Finite 2), cellid = None, ip = None \<rparr>]
   \<and> parse_p0 (Arr [Prim (Str ''16,xyz'')]) = Inr [None]"
  by code_simp

section \<open>Decoding a Hex payload is reversible\<close>

lemma char_of_char_code: "char_of (char_code c) = c"
  by (simp add: char_code_def)

lemma hex_char_dval:
  assumes "is_hex_lower c"
  shows "hex_char (nat (dval c)) = c"
proof -
  from assms consider "48 \<le> char_code c \<and> char_code c \<le> 57" | "97 \<le> char_code c \<and> char_code c \<le> 102"
    by (auto simp: is_hex_lower_iff)
  then show ?thesis
  proof cases
    case 1
    then have lo: "48 \<le> char_code c" and hi: "char_code c \<le> 57" by simp_all
    have d: "dval c = int (char_code c - 48)"
      using lo hi by (simp add: dval_def digit_value_def Let_def)
    have "char_code c - 48 < 10" using lo hi by linarith
    then have "hex_char (char_code c - 48) = char_of (48 + (char_code c - 48))"
      by (simp add: hex_char_def)
    also have "48 + (char_code c - 48) = char_code c" using lo by simp
    finally show ?thesis by (simp add: d char_of_char_code)
  next
    case 2
    then have lo: "97 \<le> char_code c" and hi: "char_code c \<le> 102" by simp_all
    have d: "dval c = int (char_code c - 87)"
      using lo hi by (simp add: dval_def digit_value_def Let_def)
    have "\<not> char_code c - 87 < 10" using lo by linarith
    then have "hex_char (char_code c - 87) = char_of (87 + (char_code c - 87))"
      by (simp add: hex_char_def)
    also have "87 + (char_code c - 87) = char_code c" using lo by simp
    finally show ?thesis by (simp add: d char_of_char_code)
  qed
qed

lemma to_hex_digits:
  "list_all is_hex_lower s \<Longrightarrow> to_hex (length s) (nat (digits_value 16 s)) = s"
proof (induction s rule: rev_induct)
  case Nil
  show ?case by simp
next
  case (snoc c s)
  then have hs: "list_all is_hex_lower s" and hc: "is_hex_lower c" by simp_all
  define v where "v = nat (digits_value 16 s)"
  define d where "d = nat (dval c)"
  from hex_lower_dval [OF hc] have dlo: "0 \<le> dval c" and dhi: "dval c < 16" by simp_all
  have d16: "d < 16" using dlo dhi by (simp add: d_def)
  have "digits_value 16 (s @ [c]) = digits_value 16 s * 16 + dval c"
    by (simp add: digits_value_snoc)
  then have n: "nat (digits_value 16 (s @ [c])) = v * 16 + d"
    using digits_value_nonneg [of 16 s] dlo
    by (simp add: v_def d_def nat_add_distrib nat_mult_distrib)
  have dv: "(v * 16 + d) div 16 = v" "(v * 16 + d) mod 16 = d" using d16 by simp_all
  have "to_hex (length (s @ [c])) (nat (digits_value 16 (s @ [c]))) = to_hex (length s) v @ [hex_char d]"
    using d16 by (simp add: n)
  also have "to_hex (length s) v = s" unfolding v_def by (rule snoc.IH [OF hs])
  also have "hex_char d = c" unfolding d_def by (rule hex_char_dval [OF hc])
  finally show ?case .
qed

lemma to_hex_field:
  assumes "hex_payload data" and "a \<le> b" and "b \<le> 24"
  shows "to_hex (b - a) (nat (hex_field data a b)) = take (b - a) (drop a data)"
proof -
  from assms(1) have len: "length data = 24" by (simp add: hex_payload_def)
  have l: "length (take (b - a) (drop a data)) = b - a" using assms(2,3) len by simp
  from to_hex_digits [OF hex_slice [OF assms(1), of "b - a" a]]
  show ?thesis unfolding hex_field_def l .
qed

lemma dval_digit_char: "d < 10 \<Longrightarrow> dval (digit_char d) = int d"
  by (simp add: dval_def digit_value_def Let_def char_code_digit_char)

lemma digits_value_dec_digits: "digits_value 10 (dec_digits n) = int n"
proof (induction n rule: dec_digits.induct)
  case (1 n)
  show ?case
  proof (cases "n < 10")
    case True
    then show ?thesis by (simp add: dec_digits_1 digits_value_def dval_digit_char)
  next
    case False
    then have ih: "digits_value 10 (dec_digits (n div 10)) = int (n div 10)" using 1 by simp
    have "dec_digits n = dec_digits (n div 10) @ [digit_char (n mod 10)]"
      using False by (subst dec_digits.simps) simp
    then have "digits_value 10 (dec_digits n) = int (n div 10) * 10 + int (n mod 10)"
      by (simp add: digits_value_snoc ih dval_digit_char)
    also have "\<dots> = int n" by (simp add: zdiv_int zmod_int)
    finally show ?thesis .
  qed
qed

lemma dec_digits_no_dot: "CHR ''.'' \<notin> set (dec_digits n)"
proof (induction n rule: dec_digits.induct)
  case (1 n)
  have dc: "\<And>d. d < 10 \<Longrightarrow> digit_char d \<noteq> CHR ''.''"
  proof
    fix d :: nat assume "d < 10" and "digit_char d = CHR ''.''"
    then have "char_code (digit_char d) = char_code CHR ''.''" by simp
    with \<open>d < 10\<close> show False by (simp add: char_code_digit_char char_codes)
  qed
  show ?case
  proof (cases "n < 10")
    case True
    then show ?thesis using dc [of n] by (auto simp: dec_digits_1)
  next
    case False
    have "dec_digits n = dec_digits (n div 10) @ [digit_char (n mod 10)]"
      using False by (subst dec_digits.simps) simp
    then show ?thesis using 1 False dc [of "n mod 10"] by auto
  qed
qed

lemma octets_of_dotted_quad: "octets_of (Some (dotted_quad a b c d)) = [a, b, c, d]"
proof -
  have "split (dotted_quad a b c d) CHR ''.'' = [dec_digits a, dec_digits b, dec_digits c, dec_digits d]"
    unfolding dotted_quad_def
    by (simp add: split_first [OF dec_digits_no_dot] split_absent [OF dec_digits_no_dot])
  then show ?thesis by (simp add: octets_of_def digits_value_dec_digits)
qed

lemma payload_slices:
  assumes "length (data :: string) = 24"
  shows "take 4 data @ take 4 (drop 4 data) @ take 8 (drop 8 data) @ take 2 (drop 16 data)
         @ take 2 (drop 18 data) @ take 2 (drop 20 data) @ take 2 (drop 22 data) = data"
proof -
  have step: "\<And>n m xs. take n (drop m xs) @ drop (m + n) xs = drop m (xs :: string)"
    by (metis add.commute append_take_drop_id drop_drop)
  have "take 2 (drop 22 data) = drop 22 data" using assms by simp
  then have "take 2 (drop 20 data) @ take 2 (drop 22 data) = drop 20 data"
    using step [of 2 20 data] by simp
  then have "take 2 (drop 18 data) @ take 2 (drop 20 data) @ take 2 (drop 22 data) = drop 18 data"
    using step [of 2 18 data] by simp
  then have "take 2 (drop 16 data) @ take 2 (drop 18 data) @ take 2 (drop 20 data)
      @ take 2 (drop 22 data) = drop 16 data"
    using step [of 2 16 data] by simp
  then have "take 8 (drop 8 data) @ take 2 (drop 16 data) @ take 2 (drop 18 data)
      @ take 2 (drop 20 data) @ take 2 (drop 22 data) = drop 8 data"
    using step [of 8 8 data] by simp
  then have "take 4 (drop 4 data) @ take 8 (drop 8 data) @ take 2 (drop 16 data)
      @ take 2 (drop 18 data) @ take 2 (drop 20 data) @ take 2 (drop 22 data) = drop 4 data"
    using step [of 4 4 data] by simp
  then show ?thesis by simp
qed

lemma field_nat_of_int: "0 \<le> v \<Longrightarrow> field_nat (Some (Finite (of_int v))) = nat v"
  by (simp add: field_nat_def)

lemma reencode_hex_record:
  assumes "hex_payload data"
  shows "reencode \<lparr> rec_id = i, dmcc = None,
           mnc = Some (Finite (of_int (hex_field data 0 4))),
           bytes_used = Some (Finite (of_int (hex_field data 4 8))),
           cellid = Some (Finite (of_int (hex_field data 8 16))),
           ip = Some (dotted_quad (nat (hex_field data 16 18)) (nat (hex_field data 18 20))
                        (nat (hex_field data 20 22)) (nat (hex_field data 22 24))) \<rparr> = data"
proof -
  from assms have len: "length data = 24" by (simp add: hex_payload_def)
  note nn = hex_field_bounds(1) [OF assms]
  have f: "to_hex 4 (nat (hex_field data 0 4)) = take 4 data"
    "to_hex 4 (nat (hex_field data 4 8)) = take 4 (drop 4 data)"
    "to_hex 8 (nat (hex_field data 8 16)) = take 8 (drop 8 data)"
    "to_hex 2 (nat (hex_field data 16 18)) = take 2 (drop 16 data)"
    "to_hex 2 (nat (hex_field data 18 20)) = take 2 (drop 18 data)"
    "to_hex 2 (nat (hex_field data 20 22)) = take 2 (drop 20 data)"
    "to_hex 2 (nat (hex_field data 22 24)) = take 2 (drop 22 data)"
    using to_hex_field [OF assms, of 0 4] to_hex_field [OF assms, of 4 8]
      to_hex_field [OF assms, of 8 16] to_hex_field [OF assms, of 16 18]
      to_hex_field [OF assms, of 18 20] to_hex_field [OF assms, of 20 22]
      to_hex_field [OF assms, of 22 24]
    by simp_all
  show ?thesis
    unfolding reencode_def
    by (simp only: usage_record.simps field_nat_of_int [OF nn] octets_of_dotted_quad f
        list.map concat.simps append_Nil2 append_assoc payload_slices [OF len])
qed

text \<open>
  Claim C4: for every well-formed Hex line (an ID ending in \<open>6\<close>, a payload of 24
  lowercase hex characters) decoding is reversible: writing the decoded \<open>mnc\<close> (4
  nibbles), \<open>bytes_used\<close> (4 nibbles), \<open>cellid\<close> (8 nibbles) and the four octets of
  \<open>ip\<close> (2 nibbles each, in order) back as zero-padded lowercase hex gives the payload.
  The decoder is a function, so the same line always decodes to the same record.
\<close>

theorem hex_decode_reversible:
  assumes "CHR '','' \<notin> set id'" and "id' \<noteq> []" and "last id' = CHR ''6''" and "hex_payload data"
  shows "\<exists>r. parse (Prim (Str (id' @ '','' @ data))) = Inr [Some r]
           \<and> parse_p0 (Prim (Str (id' @ '','' @ data))) = Inr [Some r]
           \<and> reencode r = data"
  using parseSingle_text_hex [OF assms] parseSingle_p0_hex [OF assms]
    reencode_hex_record [OF assms(4)]
  by (simp add: parse_Str parse_p0_Str)

theorem hex_decode_reversible_witness:
  "\<exists>r. parse (Prim (Str ''45546,deadbeef00000000cafe0102'')) = Inr [Some r]
       \<and> parse_p0 (Prim (Str ''45546,deadbeef00000000cafe0102'')) = Inr [Some r]
       \<and> reencode r = ''deadbeef00000000cafe0102''"
proof -
  have h: "hex_payload ''deadbeef00000000cafe0102''" by code_simp
  from hex_decode_reversible [of "''45546''" "''deadbeef00000000cafe0102''", OF _ _ _ h]
  show ?thesis by simp
qed

section \<open>Text that is not a number\<close>

subsection \<open>Text that holds a character no numeric literal has\<close>

lemma dropWhile_keeps: "x \<in> set s \<Longrightarrow> \<not> P x \<Longrightarrow> x \<in> set (dropWhile P s)"
  by (induction s) auto

lemma trim_keeps: "x \<in> set s \<Longrightarrow> \<not> is_ws x \<Longrightarrow> x \<in> set (trim s)"
proof -
  assume a: "x \<in> set s" "\<not> is_ws x"
  then have "x \<in> set (rev (dropWhile is_ws s))" by (simp add: dropWhile_keeps)
  then have "x \<in> set (dropWhile is_ws (rev (dropWhile is_ws s)))" using a(2) by (rule dropWhile_keeps)
  then show ?thesis by (simp add: trim_def)
qed

lemma digit_value_below_36: "digit_value c = Some d \<Longrightarrow> d < 36"
  by (auto simp: digit_value_def Let_def split: if_splits)

lemma is_digit_in_numeral: "is_digit_in r c \<Longrightarrow> numeral_char c"
  by (auto simp: numeral_char_def is_digit_in_def dest: digit_value_below_36 split: option.splits)

lemma is_digits_numeral: "is_digits r ds \<Longrightarrow> c \<in> set ds \<Longrightarrow> numeral_char c"
  by (auto simp: is_digits_def list_all_iff intro: is_digit_in_numeral)

lemma letters_numeral:
  "numeral_char CHR ''0''" "numeral_char CHR ''x''" "numeral_char CHR ''X''"
  "numeral_char CHR ''o''" "numeral_char CHR ''O''" "numeral_char CHR ''b''"
  "numeral_char CHR ''B''" "numeral_char CHR ''e''" "numeral_char CHR ''E''"
  "numeral_char CHR ''+''" "numeral_char CHR ''-''" "numeral_char CHR ''.''"
  by (simp_all add: numeral_char_def is_digit_in_def digit_value_def char_code_def)

lemma nondecimal_literal_foreign:
  assumes "c \<in> set t" and "\<not> numeral_char c"
  shows "nondecimal_literal t = None"
proof (rule ccontr)
  assume "nondecimal_literal t \<noteq> None"
  then obtain c0 c1 ds r where t: "t = c0 # c1 # ds" and c0: "c0 = CHR ''0''"
    and c1: "c1 \<in> {CHR ''x'', CHR ''X'', CHR ''o'', CHR ''O'', CHR ''b'', CHR ''B''}"
    and d: "is_digits r ds"
    by (auto simp: nondecimal_literal_def split: list.splits if_splits)
  from assms(1) t consider "c = c0" | "c = c1" | "c \<in> set ds" by auto
  then show False
  proof cases
    case 1
    with c0 assms(2) show False by (simp add: letters_numeral)
  next
    case 2
    with c1 assms(2) show False by (auto simp: letters_numeral)
  next
    case 3
    with d assms(2) show False by (auto dest: is_digits_numeral)
  qed
qed

lemma signed_digits_foreign:
  assumes "c \<in> set s" and "\<not> numeral_char c"
  shows "signed_digits s = None"
proof (cases s)
  case Nil
  then show ?thesis by (simp add: signed_digits_def)
next
  case (Cons a ds)
  have nd: "\<not> is_digits 10 s" using assms is_digits_numeral by blast
  have "c \<noteq> CHR ''+''" "c \<noteq> CHR ''-''" using assms(2) letters_numeral by auto
  then have "(a = CHR ''+'' \<or> a = CHR ''-'') \<Longrightarrow> c \<in> set ds" using assms(1) Cons by auto
  then have "(a = CHR ''+'' \<or> a = CHR ''-'') \<Longrightarrow> \<not> is_digits 10 ds"
    using assms(2) is_digits_numeral by blast
  then show ?thesis using nd Cons by (auto simp: signed_digits_def)
qed

lemma decimal_literal_foreign:
  assumes "c \<in> set t" and "\<not> numeral_char c"
  shows "decimal_literal t = None"
proof -
  define m where "m = takeWhile (\<lambda>c. \<not> is_exp_mark c) t"
  define x where "x = dropWhile (\<lambda>c. \<not> is_exp_mark c) t"
  define ip where "ip = takeWhile (\<lambda>c. c \<noteq> CHR ''.'') m"
  define fr where "fr = dropWhile (\<lambda>c. c \<noteq> CHR ''.'') m"
  have unfold: "decimal_literal t =
      (case exponent_part x of
         None \<Rightarrow> None
       | Some ex \<Rightarrow>
           if fr = [] then
             (if is_digits 10 ip then Some (of_int (digits_value 10 ip) * (10 powi ex)) else None)
           else
             (if (ip = [] \<and> tl fr = []) \<or> \<not> list_all (is_digit_in 10) (ip @ tl fr) then None
              else Some (of_int (digits_value 10 (ip @ tl fr)) / 10 ^ length (tl fr) * (10 powi ex))))"
    unfolding decimal_literal_def Let_def m_def x_def ip_def fr_def by (rule refl)
  have ne: "c \<noteq> CHR ''e''" "c \<noteq> CHR ''E''" "c \<noteq> CHR ''.''"
    using assms(2) letters_numeral by auto
  have "set (m @ x) = set t" unfolding m_def x_def by (simp only: takeWhile_dropWhile_id)
  then have "c \<in> set m \<or> c \<in> set x" using assms(1) by auto
  then consider "c \<in> set x" | "c \<in> set m" by blast
  then show ?thesis
  proof cases
    case 1
    then obtain e rest where xe: "x = e # rest" by (cases x) auto
    have "x \<noteq> [] \<Longrightarrow> \<not> \<not> is_exp_mark (hd x)"
      unfolding x_def by (rule hd_dropWhile)
    with xe have "is_exp_mark e" by simp
    with ne have "c \<noteq> e" by (auto simp: is_exp_mark_def)
    with 1 xe have "c \<in> set rest" by auto
    then have "signed_digits rest = None" using assms(2) by (rule signed_digits_foreign)
    then have "exponent_part x = None" by (simp add: exponent_part_def xe)
    then show ?thesis by (simp add: unfold)
  next
    case 2
    have "set (ip @ fr) = set m" unfolding ip_def fr_def by (simp only: takeWhile_dropWhile_id)
    with 2 have cm: "c \<in> set ip \<or> c \<in> set fr" by auto
    show ?thesis
    proof (cases "fr = []")
      case True
      with cm have "c \<in> set ip" by simp
      then have "\<not> is_digits 10 ip" using assms(2) is_digits_numeral by blast
      with True show ?thesis by (simp add: unfold split: option.splits)
    next
      case False
      have "fr \<noteq> [] \<Longrightarrow> \<not> hd fr \<noteq> CHR ''.''"
        unfolding fr_def by (rule hd_dropWhile)
      with False have "hd fr = CHR ''.''" by simp
      with False ne(3) cm have "c \<in> set (ip @ tl fr)" by (cases fr) auto
      then have "\<not> list_all (is_digit_in 10) (ip @ tl fr)"
        using assms(2) is_digit_in_numeral by (auto simp: list_all_iff)
      with False show ?thesis by (simp add: unfold split: option.splits)
    qed
  qed
qed

lemma str_unsigned_foreign:
  assumes "c \<in> set t" and "\<not> numeral_char c"
  shows "str_unsigned t = NaN"
proof -
  have "numeral_char x" if "x \<in> set ''Infinity''" for x
    using that by (auto simp: numeral_char_def is_digit_in_def digit_value_def char_code_def)
  with assms have "t \<noteq> ''Infinity''" by blast
  then show ?thesis by (simp add: str_unsigned_def decimal_literal_foreign [OF assms])
qed

lemma str_decimal_foreign:
  assumes "c \<in> set t" and "\<not> numeral_char c"
  shows "str_decimal t = NaN"
proof (cases t)
  case Nil
  then show ?thesis by (simp add: str_decimal_def)
next
  case (Cons a u)
  have "c \<noteq> CHR ''+''" "c \<noteq> CHR ''-''" using assms(2) letters_numeral by auto
  then have "(a = CHR ''+'' \<or> a = CHR ''-'') \<Longrightarrow> c \<in> set u" using assms(1) Cons by auto
  then have "(a = CHR ''+'' \<or> a = CHR ''-'') \<Longrightarrow> str_unsigned u = NaN"
    using assms(2) str_unsigned_foreign by blast
  then show ?thesis
    using Cons str_unsigned_foreign [OF assms] by (auto simp: str_decimal_def)
qed

lemma StringToNumber_foreign:
  assumes "c \<in> set s" and "\<not> numeral_char c"
  shows "StringToNumber s = NaN"
proof -
  from assms(2) have "\<not> is_ws c" by (simp add: numeral_char_def)
  with assms(1) have t: "c \<in> set (trim s)" by (rule trim_keeps)
  then have "trim s \<noteq> []" by auto
  then show ?thesis
    by (simp add: StringToNumber_def Let_def nondecimal_literal_foreign [OF t assms(2)]
        str_decimal_foreign [OF t assms(2)])
qed

section \<open>Numeric fields of the normalizer\<close>


lemma numeric_field_Str_None: "numeric_field (Str s) = None \<longleftrightarrow> StringToNumber s = NaN"
  by (simp add: numeric_field_def isNaN_def)

lemma numeric_field_empty: "numeric_field (Str []) = Some (Finite 0)"
  by (simp add: numeric_field_def isNaN_def Number_def StringToNumber_def trim_def)

text \<open>
  A text that holds a character no numeric literal has, a separator say, gives an absent
  field.
\<close>

lemma numeric_field_foreign:
  assumes "x \<in> set t" and "\<not> numeral_char x"
  shows "numeric_field (Str t) = None"
  using StringToNumber_foreign [OF assms] by (simp add: numeric_field_Str_None)

text \<open>
  Claim C7 says that the normalizer turns a valid number into its integer value and
  anything else, the empty string left by splitting included, into an absent field. The
  code asks \<open>isNaN\<close>, for which the empty string is the number 0, so the field of an empty
  token is 0 and not absent: \<open>bytes_used\<close> in the record of the line \<open>1,\<close>, and \<open>mnc\<close>
  in the record of \<open>774,310,,500,77\<close>, in both files. A token that is no number, as in
  \<open>774,310,x,500,77\<close>, does give an absent field.
\<close>

theorem empty_token_is_zero:
  "parse (Prim (Str ''1,''))
     = Inr [Some \<lparr> rec_id = Some (Finite 1), dmcc = None, mnc = None,
                    bytes_used = Some (Finite 0), cellid = None, ip = None \<rparr>]
   \<and> parse_p0 (Prim (Str ''1,''))
     = Inr [Some \<lparr> rec_id = Some (Finite 1), dmcc = None, mnc = None,
                    bytes_used = Some (Finite 0), cellid = None, ip = None \<rparr>]
   \<and> parse (Prim (Str ''774,310,,500,77''))
     = Inr [Some \<lparr> rec_id = Some (Finite 774), dmcc = Some ''310'', mnc = Some (Finite 0),
                    bytes_used = Some (Finite 500), cellid = Some (Finite 77), ip = None \<rparr>]
   \<and> parse_p0 (Prim (Str ''774,310,,500,77''))
     = Inr [Some \<lparr> rec_id = Some (Finite 774), dmcc = Some ''310'', mnc = Some (Finite 0),
                    bytes_used = Some (Finite 500), cellid = Some (Finite 77), ip = None \<rparr>]
   \<and> parse (Prim (Str ''774,310,x,500,77''))
     = Inr [Some \<lparr> rec_id = Some (Finite 774), dmcc = Some ''310'', mnc = None,
                    bytes_used = Some (Finite 500), cellid = Some (Finite 77), ip = None \<rparr>]"
  by code_simp

section \<open>Input that is not text\<close>

text \<open>
  Claim C1 says that \<open>parse\<close> returns normally for every input, with an absent slot
  for whatever it cannot parse, also for input that is not text. The code does not: with
  the guard dead, \<open>null\<close>, \<open>undefined\<close>, a number, or a batch holding one of them
  reaches \<open>input.indexOf\<close> (in the second file \<open>input.split\<close>) and the call throws a
  \<open>TypeError\<close>, which leaves \<open>parse\<close>.
\<close>

theorem parse_throws_on_non_text:
  "parse (Prim Null) = Inl TypeError
   \<and> parse (Prim Undefined) = Inl TypeError
   \<and> parse (Prim (Num (Finite 42))) = Inl TypeError
   \<and> parse (Arr [Prim (Str ''123,500''), Prim Null]) = Inl TypeError
   \<and> parse_p0 (Prim Null) = Inl TypeError
   \<and> parse_p0 (Prim Undefined) = Inl TypeError
   \<and> parse_p0 (Prim (Num (Finite 42))) = Inl TypeError
   \<and> parse_p0 (Arr [Prim (Str ''123,500''), Prim Null]) = Inl TypeError"
  by code_simp

section \<open>The address pattern\<close>

subsection \<open>Dotted quads\<close>








subsection \<open>The address the handlers pass\<close>













subsection \<open>What the normalizer keeps\<close>




section \<open>Normalizing a normalized record\<close>











end
